theory Spec2Isabelle
  imports Complex_Main "HOL-Library.Multiset" "HOL-Library.Word" "HOL-Library.Log_Nat"
begin

section \<open>The Python runtime the splitter relies on\<close>

text \<open>
  The sources are Python 2: \<open>range\<close> returns a list, \<open>/\<close> on two ints is floor
  division, \<open>xrange(n)\<close> is empty for \<open>n \<le> 0\<close>.  Exceptions are values of
  \<open>py_error\<close>; an operation that can raise returns \<open>py_error + 'a\<close>.
\<close>

datatype py_error =
    ZeroDivisionError
  | ValueError
  | AttributeError
  | ImportError
  | UnicodeEncodeError
  | IndexError
  | KeyError
  | TypeError
  | OverflowError

text \<open>
  What the interpreter and the standard library supply, taken as parameters:
  \<^item> \<open>rng_seed k\<close> is the generator state after \<open>random.Random.seed(k)\<close>;
  \<^item> \<open>rng_random s\<close> is one call of \<open>random()\<close>: the 53-bit numerator \<open>r\<close> of the
    float \<open>r / 2^53\<close> it returns (so the float lies in \<open>[0, 1)\<close>), and the next state;
  \<^item> \<open>dict_items d\<close> is \<open>d.items()\<close> for a dict whose items were inserted in the
    order of the list \<open>d\<close>: Python 2 iterates a dict in an order of its own.
\<close>

record ('s, 'a) py_runtime =
  rng_seed :: "int \<Rightarrow> 's"
  rng_random :: "'s \<Rightarrow> 53 word \<times> 's"
  dict_items :: "('a \<times> nat list) list \<Rightarrow> ('a \<times> nat list) list"

text \<open>\<open>d.items()\<close> lists every item of the dict once, in some order.\<close>

definition items_permuted :: "('s, 'a) py_runtime \<Rightarrow> bool" where
  "items_permuted E \<longleftrightarrow> (\<forall>d. mset (dict_items E d) = mset d)"

subsection \<open>Slices\<close>

text \<open>
  A slice bound \<open>i\<close> on a list of length \<open>n\<close>: a negative bound counts from the end,
  and the result is clipped to \<open>[0, n]\<close>.
\<close>

definition slice_bound :: "int \<Rightarrow> nat \<Rightarrow> nat" where
  "slice_bound i n = (if i < 0 then nat (max 0 (i + int n)) else min (nat i) n)"

text \<open>\<open>xs[:hi]\<close>, \<open>xs[lo:]\<close> and \<open>xs[lo:hi]\<close>.\<close>

definition slice_to :: "'b list \<Rightarrow> int \<Rightarrow> 'b list" where
  "slice_to xs hi = take (slice_bound hi (length xs)) xs"

definition slice_from :: "'b list \<Rightarrow> int \<Rightarrow> 'b list" where
  "slice_from xs lo = drop (slice_bound lo (length xs)) xs"

definition slice :: "'b list \<Rightarrow> int \<Rightarrow> int \<Rightarrow> 'b list" where
  "slice xs lo hi =
     (let l = slice_bound lo (length xs); h = slice_bound hi (length xs)
      in take (h - l) (drop l xs))"

subsection \<open>Floats\<close>

text \<open>
  A Python float is an IEEE 754 double.  \<open>Finite m e\<close> is the number \<open>m * 2^e\<close>; a
  double has \<open>\<bar>m\<bar> < 2^53\<close> and \<open>-1074 \<le> e \<le> 971\<close>.  The sign of a zero is
  dropped: nothing below depends on it.
\<close>

datatype double = Finite int int | PosInf | NegInf | NaN

definition is_double :: "double \<Rightarrow> bool" where
  "is_double x =
     (case x of Finite m e \<Rightarrow> \<bar>m\<bar> < 2 ^ 53 \<and> - 1074 \<le> e \<and> e \<le> 971 | _ \<Rightarrow> True)"

text \<open>The number a finite double stands for (\<open>0\<close> for the others).\<close>

definition dval :: "double \<Rightarrow> real" where
  "dval x = (case x of Finite m e \<Rightarrow> real_of_int m * 2 powi e | _ \<Rightarrow> 0)"

text \<open>
  \<open>M / 2^s\<close> rounded to the nearest integer, a tie going to the even neighbour.
\<close>

definition round_half_even :: "int \<Rightarrow> nat \<Rightarrow> int" where
  "round_half_even M s =
     (let q = M div 2 ^ s; r = M mod 2 ^ s
      in if 2 * r < 2 ^ s then q
         else if 2 ^ s < 2 * r then q + 1
         else if even q then q else q + 1)"

text \<open>
  The double nearest to the exact number \<open>M * 2^E\<close> (round to nearest, ties to even):
  the mantissa keeps 53 bits, the exponent of its last bit is at least \<open>-1074\<close>, and
  a result of \<open>2^1024\<close> or more is an infinity.
\<close>

definition round_double :: "int \<Rightarrow> int \<Rightarrow> double" where
  "round_double M E =
     (let s = nat (max 0 (max (bitlen \<bar>M\<bar> - 53) (- 1074 - E)));
          M' = round_half_even M s;
          E' = E + int s
      in if 0 \<le> E' \<and> 2 ^ 1024 \<le> \<bar>M'\<bar> * 2 ^ nat E'
         then (if M < 0 then NegInf else PosInf)
         else Finite M' E')"

text \<open>The sign of a double, and the product of two doubles.\<close>

definition dsign :: "double \<Rightarrow> int" where
  "dsign x = (case x of Finite m e \<Rightarrow> sgn m | PosInf \<Rightarrow> 1 | NegInf \<Rightarrow> - 1 | NaN \<Rightarrow> 0)"

definition fmul :: "double \<Rightarrow> double \<Rightarrow> double" where
  "fmul a b =
     (case (a, b) of
        (Finite m1 e1, Finite m2 e2) \<Rightarrow> round_double (m1 * m2) (e1 + e2)
      | _ \<Rightarrow>
          if a = NaN \<or> b = NaN \<or> dsign a * dsign b = 0 then NaN
          else if dsign a * dsign b < 0 then NegInf
          else PosInf)"

text \<open>\<open>a < b\<close> on floats: false when either side is a NaN.\<close>

fun float_less :: "double \<Rightarrow> double \<Rightarrow> bool" where
  "float_less (Finite m1 e1) (Finite m2 e2) =
     (m1 * 2 ^ nat (e1 - min e1 e2) < m2 * 2 ^ nat (e2 - min e1 e2))"
| "float_less NegInf (Finite m e) = True"
| "float_less NegInf PosInf = True"
| "float_less (Finite m e) PosInf = True"
| "float_less a b = False"

text \<open>
  \<open>len(xs)\<close> as the float operand of a product: the length is a C \<open>long\<close> (64 bits,
  signed), which the interpreter casts to a double.
\<close>

definition float_of_long :: "64 word \<Rightarrow> double" where
  "float_of_long w = round_double (sint w) 0"

definition float_of_len :: "nat \<Rightarrow> double" where
  "float_of_len n = float_of_long (word_of_nat n)"

text \<open>
  \<open>int(x)\<close> on a float truncates towards zero; it raises \<open>OverflowError\<close> on an
  infinity and \<open>ValueError\<close> on a NaN.
\<close>

fun py_int :: "double \<Rightarrow> py_error + int" where
  "py_int (Finite m e) =
     Inr (if 0 \<le> e then m * 2 ^ nat e
          else if m < 0 then - ((- m) div 2 ^ nat (- e))
          else m div 2 ^ nat (- e))"
| "py_int PosInf = Inl OverflowError"
| "py_int NegInf = Inl OverflowError"
| "py_int NaN = Inl ValueError"

text \<open>\<open>int(train_ratio * n)\<close> for a length \<open>n\<close>.\<close>

definition ratio_size :: "double \<Rightarrow> nat \<Rightarrow> py_error + int" where
  "ratio_size train_ratio n = py_int (fmul train_ratio (float_of_len n))"

text \<open>\<open>xrange(n)\<close>: the integers \<open>0, ..., n - 1\<close>, none when \<open>n \<le> 0\<close>.\<close>

definition xrange :: "int \<Rightarrow> int list" where
  "xrange n = [0..n - 1]"

subsection \<open>\<open>random.shuffle\<close>\<close>

text \<open>
  The standard library's shuffle:
  \<^verbatim>\<open>for i in reversed(xrange(1, len(x))):
      j = int(random() * (i+1))
      x[i], x[j] = x[j], x[i]\<close>
  With \<open>random() = r / 2^53\<close> the index \<open>j\<close> is \<open>r * (i+1) div 2^53\<close>.
\<close>

definition shuffle_index :: "53 word \<Rightarrow> nat \<Rightarrow> nat" where
  "shuffle_index r i = (unat r * (i + 1)) div 2 ^ 53"

fun shuffle_loop :: "('s, 'a) py_runtime \<Rightarrow> nat \<Rightarrow> 'b list \<Rightarrow> 's \<Rightarrow> 'b list \<times> 's" where
  "shuffle_loop E 0 x s = (x, s)"
| "shuffle_loop E (Suc i) x s =
     (case rng_random E s of (r, s') \<Rightarrow>
        let j = shuffle_index r (Suc i)
        in shuffle_loop E i (x[Suc i := x ! j, j := x ! Suc i]) s')"

definition rng_shuffle :: "('s, 'a) py_runtime \<Rightarrow> 's \<Rightarrow> 'b list \<Rightarrow> 'b list \<times> 's" where
  "rng_shuffle E s x = shuffle_loop E (length x - 1) x s"

section \<open>\<open>TrainTestSplitter\<close>\<close>

record 's TrainTestSplitter =
  shuffle :: bool
  random_seed :: "int option"
  rng :: 's

text \<open>
  The constructor; \<open>s0\<close> is the state \<open>random.Random()\<close> starts in (seeded by the
  operating system, so any state).
\<close>

definition init :: "bool \<Rightarrow> int option \<Rightarrow> 's \<Rightarrow> 's TrainTestSplitter" where
  "init shuffle' random_seed' s0 =
     \<lparr>shuffle = shuffle', random_seed = random_seed', rng = s0\<rparr>"

definition flush_rng :: "('s, 'a) py_runtime \<Rightarrow> 's TrainTestSplitter \<Rightarrow> 's TrainTestSplitter" where
  "flush_rng E self =
     (case random_seed self of
        None \<Rightarrow> self
      | Some k \<Rightarrow> self\<lparr>rng := rng_seed E k\<rparr>)"

text \<open>\<open>self.rng.shuffle(x)\<close>: the list is permuted in place and the generator advances.\<close>

definition self_shuffle ::
  "('s, 'a) py_runtime \<Rightarrow> 's TrainTestSplitter \<Rightarrow> nat list \<Rightarrow> nat list \<times> 's TrainTestSplitter" where
  "self_shuffle E self x =
     (case rng_shuffle E (rng self) x of (x', s') \<Rightarrow> (x', self\<lparr>rng := s'\<rparr>))"

text \<open>\<open>if self.shuffle: self.rng.shuffle(x)\<close>.\<close>

definition shuffle_if ::
  "('s, 'a) py_runtime \<Rightarrow> 's TrainTestSplitter \<Rightarrow> nat list \<Rightarrow> nat list \<times> 's TrainTestSplitter" where
  "shuffle_if E self x = (if shuffle self then self_shuffle E self x else (x, self))"

subsection \<open>Grouping indices by label\<close>

text \<open>
  \<^verbatim>\<open>if not label in labels_indices: labels_indices[label] = []
  labels_indices[label].append(index)\<close>
  The dict is the list of its items in insertion order.
\<close>

fun add_index :: "('a \<times> nat list) list \<Rightarrow> 'a \<Rightarrow> nat \<Rightarrow> ('a \<times> nat list) list" where
  "add_index [] label index = [(label, [index])]"
| "add_index ((l, is) # d) label index =
     (if l = label then (l, is @ [index]) # d else (l, is) # add_index d label index)"

definition group_indices :: "'a list \<Rightarrow> ('a \<times> nat list) list" where
  "group_indices y = foldl (\<lambda>d (index, label). add_index d label index) [] (enumerate 0 y)"

subsection \<open>\<open>split\<close>\<close>

text \<open>
  The loop over the label groups of the stratified split:
  \<^verbatim>\<open>size = int(train_ratio * len(indices))
  train += labels_indices[label][:size]
  test += labels_indices[label][size:]\<close>
\<close>

fun split_groups ::
  "double \<Rightarrow> ('a \<times> nat list) list \<Rightarrow> nat list \<times> nat list \<Rightarrow>
     py_error + nat list \<times> nat list" where
  "split_groups train_ratio [] (train, test) = Inr (train, test)"
| "split_groups train_ratio ((label, indices) # items) (train, test) =
     (case ratio_size train_ratio (length indices) of
        Inl e \<Rightarrow> Inl e
      | Inr size' \<Rightarrow>
          split_groups train_ratio items
            (train @ slice_to indices size', test @ slice_from indices size'))"

definition split ::
  "('s, 'a) py_runtime \<Rightarrow> 's TrainTestSplitter \<Rightarrow> 'a list \<Rightarrow> double \<Rightarrow> bool \<Rightarrow>
     (py_error + nat list \<times> nat list) \<times> 's TrainTestSplitter" where
  "split E self0 y train_ratio stratify =
     (let self = flush_rng E self0 in
      if \<not> stratify then
        (let (indices, self) = shuffle_if E self [0..<length y]
         in case ratio_size train_ratio (length y) of
              Inl e \<Rightarrow> (Inl e, self)
            | Inr train_size \<Rightarrow>
                (Inr (slice_to indices train_size, slice_from indices train_size), self))
      else
        (let labels_indices = group_indices y
         in case split_groups train_ratio (dict_items E labels_indices) ([], []) of
              Inl e \<Rightarrow> (Inl e, self)
            | Inr (train, test) \<Rightarrow>
                (let (train, self) = shuffle_if E self train;
                     (test, self) = shuffle_if E self test
                 in (Inr (train, test), self))))"

subsection \<open>Generators\<close>

text \<open>
  \<open>make_k_folds\<close> and \<open>k_fold_split\<close> are generators.  Consuming one to its end gives
  the items it yielded and the exception that stopped it, if one did: an exception
  after some items leaves those items with the consumer.
\<close>

type_synonym 'x yielded = "'x list \<times> py_error option"

text \<open>Integer \<open>a / b\<close> of Python 2: floor division, raising on a zero divisor.\<close>

definition py_floordiv :: "int \<Rightarrow> int \<Rightarrow> py_error + int" where
  "py_floordiv a b = (if b = 0 then Inl ZeroDivisionError else Inr (a div b))"

text \<open>\<open>xs[i]\<close>: a negative index counts from the end.\<close>

definition py_getitem :: "'b list \<Rightarrow> int \<Rightarrow> py_error + 'b" where
  "py_getitem xs i =
     (if 0 \<le> i \<and> i < int (length xs) then Inr (xs ! nat i)
      else if i < 0 \<and> - int (length xs) \<le> i then Inr (xs ! nat (i + int (length xs)))
      else Inl IndexError)"

text \<open>\<open>np.concatenate\<close> of a list of index arrays: it needs at least one array.\<close>

definition np_concatenate :: "nat list list \<Rightarrow> py_error + nat list" where
  "np_concatenate arrays = (if arrays = [] then Inl ValueError else Inr (concat arrays))"

subsection \<open>\<open>make_k_folds\<close>\<close>

text \<open>
  Fold \<open>k\<close> of the plain path:
  \<^verbatim>\<open>if k < n_folds - 1: fold = indices[(k * fold_size):((k + 1) * fold_size)]
  else: fold = indices[(k * fold_size):]\<close>
\<close>

definition plain_fold :: "nat list \<Rightarrow> int \<Rightarrow> int \<Rightarrow> int \<Rightarrow> nat list" where
  "plain_fold indices n_folds fold_size k =
     (if k < n_folds - 1 then slice indices (k * fold_size) ((k + 1) * fold_size)
      else slice_from indices (k * fold_size))"

text \<open>
  The loop over the label groups that assembles fold \<open>k\<close> of the stratified path:
  \<^verbatim>\<open>size = len(indices) / n_folds
  if k != n_folds - 1: fold += indices[(k * size):((k + 1) * size)]
  else: fold += indices[(k * size):]\<close>
  It runs for \<open>k\<close> in \<open>xrange(n_folds)\<close> only, so \<open>n_folds \<ge> 1\<close> and the division
  cannot raise.
\<close>

fun fold_groups :: "int \<Rightarrow> int \<Rightarrow> ('a \<times> nat list) list \<Rightarrow> nat list \<Rightarrow> nat list" where
  "fold_groups n_folds k [] fold' = fold'"
| "fold_groups n_folds k ((label, indices) # items) fold' =
     (let size = int (length indices) div n_folds
      in fold_groups n_folds k items
           (fold' @ (if k \<noteq> n_folds - 1 then slice indices (k * size) ((k + 1) * size)
                    else slice_from indices (k * size))))"

text \<open>The outer loop of the stratified path: one fold per \<open>k\<close>, shuffled if asked.\<close>

fun stratified_folds ::
  "('s, 'a) py_runtime \<Rightarrow> int \<Rightarrow> ('a \<times> nat list) list \<Rightarrow> int list \<Rightarrow> 's TrainTestSplitter \<Rightarrow>
     nat list list \<times> 's TrainTestSplitter" where
  "stratified_folds E n_folds labels_indices [] self = ([], self)"
| "stratified_folds E n_folds labels_indices (k # ks) self =
     (let (fold', self) = shuffle_if E self (fold_groups n_folds k (dict_items E labels_indices) []);
          (folds, self) = stratified_folds E n_folds labels_indices ks self
      in (fold' # folds, self))"

definition make_k_folds ::
  "('s, 'a) py_runtime \<Rightarrow> 's TrainTestSplitter \<Rightarrow> 'a list \<Rightarrow> int \<Rightarrow> bool \<Rightarrow>
     nat list yielded \<times> 's TrainTestSplitter" where
  "make_k_folds E self0 y n_folds stratify =
     (let self = flush_rng E self0 in
      if \<not> stratify then
        (let (indices, self) = shuffle_if E self [0..<length y]
         in case py_floordiv (int (length y)) n_folds of
              Inl e \<Rightarrow> (([], Some e), self)
            | Inr fold_size \<Rightarrow>
                ((map (plain_fold indices n_folds fold_size) (xrange n_folds), None), self))
      else
        (let labels_indices = group_indices y;
             (folds, self) = stratified_folds E n_folds labels_indices (xrange n_folds) self
         in ((folds, None), self)))"

subsection \<open>\<open>k_fold_split\<close>\<close>

text \<open>
  The loop over the folds:
  \<^verbatim>\<open>yield np.concatenate(folds[:i] + folds[(i + 1):]), folds[i]\<close>
\<close>

fun k_fold_pairs :: "nat list list \<Rightarrow> int list \<Rightarrow> (nat list \<times> nat list) yielded" where
  "k_fold_pairs folds [] = ([], None)"
| "k_fold_pairs folds (i # is) =
     (case np_concatenate (slice_to folds i @ slice_from folds (i + 1)) of
        Inl e \<Rightarrow> ([], Some e)
      | Inr train \<Rightarrow>
          (case py_getitem folds i of
             Inl e \<Rightarrow> ([], Some e)
           | Inr test \<Rightarrow>
               (case k_fold_pairs folds is of (pairs, err) \<Rightarrow> ((train, test) # pairs, err))))"

definition k_fold_split ::
  "('s, 'a) py_runtime \<Rightarrow> 's TrainTestSplitter \<Rightarrow> 'a list \<Rightarrow> int \<Rightarrow> bool \<Rightarrow>
     (nat list \<times> nat list) yielded \<times> 's TrainTestSplitter" where
  "k_fold_split E self0 y n_folds stratify =
     (let self = flush_rng E self0
      in case make_k_folds E self y n_folds stratify of
           ((folds, Some e), self) \<Rightarrow> (([], Some e), self)
         | ((folds, None), self) \<Rightarrow> (k_fold_pairs folds (xrange n_folds), self))"

section \<open>\<open>load_model\<close>\<close>

text \<open>
  The values \<open>json.load\<close> returns: strings are \<open>unicode\<close> objects (lists of code
  points), and \<open>str(x)\<close> makes the byte string \<open>PyStr\<close> of one.
\<close>

type_synonym unicode = "nat list"

datatype py_value =
    PyNone
  | PyBool bool
  | PyInt int
  | PyFloat real
  | PyUnicode unicode
  | PyStr string
  | PyList "py_value list"
  | PyDict "(unicode \<times> py_value) list"

text \<open>A dict with string keys, as the list of its items.\<close>

type_synonym params = "(unicode \<times> py_value) list"

text \<open>
  What the loader calls outside this file:
  \<^item> \<open>import_module p\<close> is \<open>importlib.import_module(p)\<close>;
  \<^item> \<open>getattr_opt m a\<close> is \<open>getattr(m, a, None)\<close>, with \<open>None\<close> for a missing attribute;
  \<^item> \<open>truthy c\<close> is the truth value of the attribute in \<open>if model_class:\<close>;
  \<^item> \<open>call c\<close> is \<open>model_class()\<close>;
  \<^item> \<open>deserialize m ps\<close> is \<open>model._deserialize(ps)\<close>: the model after the call and
    the dict it returns;
  \<^item> \<open>set_params m ps\<close> is \<open>model.set_params(**ps)\<close>: the model after the call.
\<close>

record ('md, 'c, 'm) loader_env =
  import_module :: "string \<Rightarrow> py_error + 'md"
  getattr_opt :: "'md \<Rightarrow> string \<Rightarrow> 'c option"
  truthy :: "'c \<Rightarrow> bool"
  call :: "'c \<Rightarrow> py_error + 'm"
  deserialize :: "'m \<Rightarrow> params \<Rightarrow> py_error + ('m \<times> params)"
  set_params :: "'m \<Rightarrow> params \<Rightarrow> py_error + 'm"

text \<open>The code points of a byte string, and the key \<open>'model'\<close>.\<close>

definition unicode_of :: "string \<Rightarrow> unicode" where
  "unicode_of s = map (of_char :: char \<Rightarrow> nat) s"

definition model_key :: unicode where
  "model_key = unicode_of ''model''"

text \<open>
  \<^verbatim>\<open>to_str = lambda x: str(x) if isinstance(x, unicode) else x\<close>
  \<open>str\<close> of a \<open>unicode\<close> encodes it as ASCII and raises on a code point above 127.
\<close>

fun to_str :: "py_value \<Rightarrow> py_error + py_value" where
  "to_str (PyUnicode u) =
     (if list_all (\<lambda>c. c < 128) u then Inr (PyStr (map char_of u))
      else Inl UnicodeEncodeError)"
| "to_str v = Inr v"

text \<open>\<^verbatim>\<open>dict(zip(params.keys(), map(to_str, params.values())))\<close>\<close>

fun map_to_str :: "params \<Rightarrow> py_error + params" where
  "map_to_str [] = Inr []"
| "map_to_str ((k, v) # ps) =
     (case to_str v of
        Inl e \<Rightarrow> Inl e
      | Inr v' \<Rightarrow> (case map_to_str ps of Inl e \<Rightarrow> Inl e | Inr ps' \<Rightarrow> Inr ((k, v') # ps')))"

text \<open>
  \<^verbatim>\<open>module_path, model_name = model_path.rsplit('.', 1)\<close>
  Without a dot \<open>rsplit\<close> returns a single string and the unpacking raises
  \<open>ValueError\<close>; a value that is no string has no \<open>rsplit\<close>.
\<close>

definition rsplit_dot :: "string \<Rightarrow> py_error + string \<times> string" where
  "rsplit_dot s =
     (if CHR ''.'' \<in> set s
      then Inr (rev (tl (dropWhile (\<lambda>c. c \<noteq> CHR ''.'') (rev s))),
                rev (takeWhile (\<lambda>c. c \<noteq> CHR ''.'') (rev s)))
      else Inl ValueError)"

fun rsplit_path :: "py_value \<Rightarrow> py_error + string \<times> string" where
  "rsplit_path (PyStr s) = rsplit_dot s"
| "rsplit_path (PyUnicode u) = rsplit_dot (map char_of u)"
| "rsplit_path v = Inl AttributeError"

text \<open>
  \<open>load_model\<close> from the parsed mapping on.  The second component of the result lists
  the classes that were instantiated.
\<close>

definition load_model ::
  "('md, 'c, 'm) loader_env \<Rightarrow> params \<Rightarrow> (py_error + 'm) \<times> 'c list" where
  "load_model L params0 =
     (case map_to_str params0 of
        Inl e \<Rightarrow> (Inl e, [])
      | Inr params \<Rightarrow>
     (case map_of params model_key of
        None \<Rightarrow> (Inl ValueError, [])
      | Some model_path \<Rightarrow>
     (case rsplit_path model_path of
        Inl e \<Rightarrow> (Inl e, [])
      | Inr (module_path, model_name) \<Rightarrow>
     (case import_module L module_path of
        Inl e \<Rightarrow> (Inl e, [])
      | Inr module' \<Rightarrow>
     (case getattr_opt L module' model_name of
        None \<Rightarrow> (Inl ValueError, [])
      | Some model_class \<Rightarrow>
          if truthy L model_class then
            (case call L model_class of
               Inl e \<Rightarrow> (Inl e, [])
             | Inr model \<Rightarrow>
            (case deserialize L model params of
               Inl e \<Rightarrow> (Inl e, [model_class])
             | Inr (model, params) \<Rightarrow>
            (case set_params L model params of
               Inl e \<Rightarrow> (Inl e, [model_class])
             | Inr model \<Rightarrow> (Inr model, [model_class]))))
          else (Inl ValueError, []))))))"

text \<open>
  The mappings \<open>to_str\<close> can convert, and what it makes of them: a \<open>unicode\<close> value
  of the mapping becomes a byte string, any other value is kept.
\<close>

definition ascii_value :: "py_value \<Rightarrow> bool" where
  "ascii_value v = (case v of PyUnicode u \<Rightarrow> list_all (\<lambda>c. c < 128) u | _ \<Rightarrow> True)"

definition all_ascii :: "params \<Rightarrow> bool" where
  "all_ascii ps = list_all (\<lambda>p. ascii_value (snd p)) ps"

definition str_value :: "py_value \<Rightarrow> py_value" where
  "str_value v = (case v of PyUnicode u \<Rightarrow> PyStr (map char_of u) | _ \<Rightarrow> v)"

definition str_values :: "params \<Rightarrow> params" where
  "str_values ps = map (\<lambda>p. (fst p, str_value (snd p))) ps"

section \<open>The partitions as the specification words them\<close>

text \<open>
  The group of a label: the positions that carry it, in ascending order; and the labels
  in the order of their first occurrence.
\<close>

definition label_group :: "'a list \<Rightarrow> 'a \<Rightarrow> nat list" where
  "label_group y l = filter (\<lambda>i. y ! i = l) [0..<length y]"

definition labels_seen :: "'a list \<Rightarrow> 'a list" where
  "labels_seen y = rev (remdups (rev y))"

text \<open>
  Slice \<open>k\<close> of \<open>n\<close> contiguous slices of size \<open>floor(len / n)\<close>, the final slice
  absorbing the remainder.
\<close>

definition kth_slice :: "nat \<Rightarrow> nat \<Rightarrow> 'b list \<Rightarrow> 'b list" where
  "kth_slice n k xs =
     (if k < n - 1 then take (length xs div n) (drop (k * (length xs div n)) xs)
      else drop (k * (length xs div n)) xs)"

text \<open>
  The first \<open>int(train_ratio * m)\<close> indices of a group of size \<open>m\<close>, and the rest
  (nothing when the conversion raises).
\<close>

definition train_part :: "double \<Rightarrow> nat list \<Rightarrow> nat list" where
  "train_part train_ratio g =
     (case ratio_size train_ratio (length g) of Inl e \<Rightarrow> [] | Inr k \<Rightarrow> slice_to g k)"

definition test_part :: "double \<Rightarrow> nat list \<Rightarrow> nat list" where
  "test_part train_ratio g =
     (case ratio_size train_ratio (length g) of Inl e \<Rightarrow> [] | Inr k \<Rightarrow> slice_from g k)"

text \<open>
  The full index range \<open>[0, n)\<close> as a call on \<open>self\<close> sees it: permuted once, by the
  generator as the call has re-seeded it, if \<open>shuffle\<close> is set.
\<close>

definition permuted_range :: "('s, 'a) py_runtime \<Rightarrow> 's TrainTestSplitter \<Rightarrow> nat \<Rightarrow> nat list" where
  "permuted_range E self n =
     (if shuffle self then fst (rng_shuffle E (rng (flush_rng E self)) [0..<n]) else [0..<n])"

text \<open>All folds but fold \<open>i\<close>, concatenated in order.\<close>

definition all_but :: "nat \<Rightarrow> nat list list \<Rightarrow> nat list" where
  "all_but i folds = concat (take i folds @ drop (Suc i) folds)"

section \<open>A runtime to run the definitions on\<close>

text \<open>
  A small generator (a counter, scaled into the 53 bits) and a dict that iterates in
  reverse insertion order.
\<close>

definition test_runtime :: "(nat, nat) py_runtime" where
  "test_runtime =
     \<lparr>rng_seed = (\<lambda>k. nat \<bar>k\<bar>),
      rng_random = (\<lambda>s. (word_of_nat (s * 2905224712305343 + 1234567890123), s + 1)),
      dict_items = rev\<rparr>"

text \<open>
  The floats \<open>0.5\<close>, \<open>1.5\<close>, \<open>0.7\<close> and \<open>0.29\<close>: the doubles nearest to these decimals.
\<close>

definition d_half :: double where "d_half = Finite 1 (- 1)"

definition d_1_5 :: double where "d_1_5 = Finite 3 (- 1)"

definition d_0_7 :: double where "d_0_7 = Finite 6305039478318694 (- 53)"

definition d_0_29 :: double where "d_0_29 = Finite 5224175567749775 (- 54)"

text \<open>
  A module table with the one module \<open>stubs\<close> and its two classes: \<open>Echo\<close> (class
  number 1), whose \<open>_deserialize\<close> returns the mapping as it is, and \<open>Strict\<close> (class
  number 2), whose \<open>_deserialize\<close> reads the field \<open>_nnet\<close> of the mapping and raises
  \<open>KeyError\<close> without it.  A model is the number of its class with the parameters it
  was given.
\<close>

definition test_loader :: "(nat, nat, nat \<times> params) loader_env" where
  "test_loader =
     \<lparr>import_module = (\<lambda>p. if p = ''stubs'' then Inr 0 else Inl ImportError),
      getattr_opt = (\<lambda>m a. if m = 0 \<and> a = ''Echo'' then Some 1
                           else if m = 0 \<and> a = ''Strict'' then Some 2 else None),
      truthy = (\<lambda>c. c \<noteq> 0),
      call = (\<lambda>c. Inr (c, [])),
      deserialize = (\<lambda>m ps. if fst m = 2 \<and> map_of ps (unicode_of ''_nnet'') = None
                             then Inl KeyError else Inr (m, ps)),
      set_params = (\<lambda>m ps. Inr (fst m, ps))\<rparr>"

section \<open>Slices and shuffles\<close>

lemma slice_to_from_append: "slice_to xs k @ slice_from xs k = xs"
  by (simp add: slice_to_def slice_from_def)

lemma shuffle_index_le: "shuffle_index r i \<le> i"
proof -
  have "unat r < 2 ^ 53" using unsigned_less [of r] by simp
  then have "unat r * (i + 1) < (i + 1) * 2 ^ 53"
    by (simp only: mult.commute [of "i + 1"] mult_less_cancel2) simp
  then have "(unat r * (i + 1)) div 2 ^ 53 < i + 1"
    by (rule less_mult_imp_div_less)
  then show ?thesis by (simp add: shuffle_index_def)
qed

lemma shuffle_loop_mset:
  "i < length x \<Longrightarrow> mset (fst (shuffle_loop E i x s)) = mset x"
proof (induction i arbitrary: x s)
  case 0
  then show ?case by simp
next
  case (Suc i)
  obtain r s' where rs: "rng_random E s = (r, s')" by (cases "rng_random E s")
  let ?j = "shuffle_index r (Suc i)"
  let ?x = "x[Suc i := x ! ?j, ?j := x ! Suc i]"
  have j: "?j < length x" using shuffle_index_le [of r "Suc i"] Suc.prems by simp
  have "mset ?x = mset x" using Suc.prems j by (simp add: mset_swap)
  moreover have "i < length ?x" using Suc.prems by simp
  ultimately show ?case using Suc.IH [of ?x s'] rs by (simp add: Let_def)
qed

lemma rng_shuffle_mset: "mset (fst (rng_shuffle E s x)) = mset x"
proof (cases x)
  case Nil
  then show ?thesis by (simp add: rng_shuffle_def)
next
  case (Cons a xs)
  then show ?thesis by (simp add: rng_shuffle_def shuffle_loop_mset)
qed

lemma shuffle_if_mset: "mset (fst (shuffle_if E self x)) = mset x"
  by (simp add: shuffle_if_def self_shuffle_def rng_shuffle_mset split: prod.split)
     (metis fst_conv rng_shuffle_mset)

lemma shuffle_if_config:
  "shuffle (snd (shuffle_if E self x)) = shuffle self"
  "random_seed (snd (shuffle_if E self x)) = random_seed self"
  by (simp_all add: shuffle_if_def self_shuffle_def split: prod.split)

lemma flush_rng_config:
  "shuffle (flush_rng E self) = shuffle self"
  "random_seed (flush_rng E self) = random_seed self"
  by (simp_all add: flush_rng_def split: option.split)

section \<open>Rounding to a double\<close>

lemma sint_of_len: "n < 2 ^ 63 \<Longrightarrow> sint (word_of_nat n :: 64 word) = int n"
  by (simp add: signed_of_nat signed_take_bit_int_eq_self)

lemma round_half_even_cases:
  "round_half_even M s = M div 2 ^ s \<or> round_half_even M s = M div 2 ^ s + 1"
  by (simp add: round_half_even_def Let_def)

lemma round_half_even_err: "\<bar>round_half_even M s * 2 ^ s - M\<bar> \<le> 2 ^ s"
proof -
  define q where "q = M div 2 ^ s"
  define r where "r = M mod 2 ^ s"
  define p :: int where "p = 2 ^ s"
  have M: "M = q * p + r" unfolding q_def r_def p_def by (rule div_mult_mod_eq [symmetric])
  have r: "0 \<le> r" "r < p" by (simp_all add: r_def p_def)
  have "round_half_even M s = q \<or> round_half_even M s = q + 1"
    using round_half_even_cases [of M s] by (simp add: q_def)
  then have "\<bar>round_half_even M s * p - M\<bar> \<le> p"
  proof
    assume "round_half_even M s = q"
    then show ?thesis using M r by simp
  next
    assume "round_half_even M s = q + 1"
    then have "round_half_even M s * p - M = p - r" using M by (simp add: algebra_simps)
    then show ?thesis using r by simp
  qed
  then show ?thesis by (simp add: p_def)
qed

lemma round_half_even_nonneg: "0 \<le> M \<Longrightarrow> 0 \<le> round_half_even M s"
  using round_half_even_cases [of M s] pos_imp_zdiv_nonneg_iff [of "2 ^ s" M] by auto

lemma round_half_even_zero: "round_half_even 0 s = 0"
  by (simp add: round_half_even_def)


lemma two_powi_add: "(2 :: real) powi (a + b) = 2 powi a * 2 powi b"
  by (rule power_int_add) simp

text \<open>Rounding moves a number by at most one unit of the last place kept.\<close>

lemma round_shift_bound:
  fixes M E :: int
  defines "s \<equiv> nat (max 0 (max (bitlen \<bar>M\<bar> - 53) (- 1074 - E)))"
  shows "real_of_int \<bar>round_half_even M s\<bar> * 2 powi (E + int s)
           \<le> 2 * \<bar>real_of_int M * 2 powi E\<bar> + 1"
proof (cases "M = 0")
  case True
  then show ?thesis by (simp add: round_half_even_zero)
next
  case False
  define M' where "M' = round_half_even M s"
  define x where "x = \<bar>real_of_int M * 2 powi E\<bar>"
  have x: "x = real_of_int \<bar>M\<bar> * 2 powi E" by (simp add: x_def abs_mult)
  have "\<bar>M' * 2 ^ s - M\<bar> \<le> 2 ^ s" unfolding M'_def by (rule round_half_even_err)
  moreover have "\<bar>M' * 2 ^ s\<bar> = \<bar>M'\<bar> * 2 ^ s" by (simp add: abs_mult)
  ultimately have "\<bar>M'\<bar> * 2 ^ s \<le> \<bar>M\<bar> + 2 ^ s" by linarith
  then have "real_of_int (\<bar>M'\<bar> * 2 ^ s) \<le> real_of_int (\<bar>M\<bar> + 2 ^ s)" by (rule of_int_le_iff [THEN iffD2])
  then have "real_of_int \<bar>M'\<bar> * 2 ^ s \<le> real_of_int \<bar>M\<bar> + 2 ^ s" by simp
  then have "real_of_int \<bar>M'\<bar> * 2 ^ s * 2 powi E \<le> (real_of_int \<bar>M\<bar> + 2 ^ s) * 2 powi E"
    by (rule mult_right_mono) simp
  then have 1: "real_of_int \<bar>M'\<bar> * 2 powi (E + int s) \<le> x + 2 powi (E + int s)"
    by (simp add: two_powi_add x algebra_simps)
  have M1: "1 \<le> \<bar>M\<bar>" using False by simp
  have 2: "2 powi (E + int s) \<le> x + 1"
  proof -
    consider "s = 0" | "0 < s" "int s = bitlen \<bar>M\<bar> - 53" | "0 < s" "int s = - 1074 - E"
      unfolding s_def by linarith
    then show ?thesis
    proof cases
      case 1
      have "(1 :: real) \<le> real_of_int \<bar>M\<bar>" using M1 by linarith
      then have "1 * (2 :: real) powi E \<le> real_of_int \<bar>M\<bar> * 2 powi E"
        by (rule mult_right_mono) simp
      then have "(2 :: real) powi E \<le> x" by (simp only: x mult_1)
      then show ?thesis using 1 by simp
    next
      case 2
      have pos: "0 < \<bar>M\<bar>" using False by simp
      have hi: "2 ^ nat (bitlen \<bar>M\<bar> - 1) \<le> \<bar>M\<bar>" using bitlen_bounds [OF pos] by simp
      have lo: "(2 :: int) ^ s \<le> 2 ^ nat (bitlen \<bar>M\<bar> - 1)"
        using 2 by (intro power_increasing) simp_all
      have "(2 :: int) ^ s \<le> \<bar>M\<bar>" by (rule order_trans [OF lo hi])
      then have "real_of_int (2 ^ s) \<le> real_of_int \<bar>M\<bar>" by (rule of_int_le_iff [THEN iffD2])
      then have "(2 :: real) ^ s \<le> real_of_int \<bar>M\<bar>" by simp
      then have "(2 :: real) ^ s * 2 powi E \<le> real_of_int \<bar>M\<bar> * 2 powi E"
        by (rule mult_right_mono) simp
      moreover have "(2 :: real) powi (E + int s) = 2 ^ s * 2 powi E"
        by (simp add: two_powi_add)
      moreover have "0 \<le> x" by (simp add: x_def)
      ultimately show ?thesis unfolding x by linarith
    next
      case 3
      then have "E + int s = - 1074" by simp
      moreover have "(2 :: real) powi (- 1074) \<le> 1"
      proof -
        have "(1 :: real) \<le> 2 powi 1074" by (rule one_le_power_int) simp_all
        then have "inverse ((2 :: real) powi 1074) \<le> 1" by (rule inverse_le_1_iff [THEN iffD2, OF disjI2])
        then show ?thesis by (simp only: power_int_minus)
      qed
      moreover have "0 \<le> x" by (simp add: x_def)
      ultimately show ?thesis by simp
    qed
  qed
  show ?thesis using 1 2 unfolding M'_def x_def by simp
qed

lemma round_double_finite:
  assumes "\<bar>real_of_int M * 2 powi E\<bar> < 2 ^ 1000"
  shows "\<exists>M' E'. round_double M E = Finite M' E' \<and>
           \<bar>real_of_int M' * 2 powi E'\<bar> \<le> 2 * \<bar>real_of_int M * 2 powi E\<bar> + 1 \<and>
           (0 \<le> M \<longrightarrow> 0 \<le> M')"
proof -
  define s where "s = nat (max 0 (max (bitlen \<bar>M\<bar> - 53) (- 1074 - E)))"
  define M' where "M' = round_half_even M s"
  define E' where "E' = E + int s"
  have b: "real_of_int \<bar>M'\<bar> * 2 powi E' \<le> 2 * \<bar>real_of_int M * 2 powi E\<bar> + 1"
    unfolding M'_def E'_def s_def by (rule round_shift_bound)
  have small: "real_of_int \<bar>M'\<bar> * 2 powi E' < 2 ^ 1024"
  proof -
    have "(2 :: real) ^ 1000 * 4 \<le> 2 ^ 1000 * 2 ^ 24" by (intro mult_left_mono) simp_all
    also have "\<dots> = (2 :: real) ^ 1024" by (simp only: power_add [symmetric]) simp
    finally have big: "(2 :: real) ^ 1000 * 4 \<le> 2 ^ 1024" .
    have "(1 :: real) \<le> 2 ^ 1000" by (rule one_le_power) simp
    then have "2 * \<bar>real_of_int M * 2 powi E\<bar> + 1 < 2 ^ 1000 * 4" using assms by linarith
    then show ?thesis using b big by linarith
  qed
  have no: "\<not> (0 \<le> E' \<and> 2 ^ 1024 \<le> \<bar>M'\<bar> * 2 ^ nat E')"
  proof
    assume a: "0 \<le> E' \<and> 2 ^ 1024 \<le> \<bar>M'\<bar> * 2 ^ nat E'"
    then have "real_of_int (2 ^ 1024) \<le> real_of_int (\<bar>M'\<bar> * 2 ^ nat E')"
      by (intro of_int_le_iff [THEN iffD2]) simp
    then have "(2 :: real) ^ 1024 \<le> real_of_int \<bar>M'\<bar> * 2 powi E'"
      using a by (simp add: power_int_nonneg_exp)
    then show False using small by simp
  qed
  have "round_double M E = Finite M' E'"
    using no by (simp add: round_double_def Let_def s_def [symmetric] M'_def [symmetric] E'_def [symmetric])
  moreover have "\<bar>real_of_int M' * 2 powi E'\<bar> = real_of_int \<bar>M'\<bar> * 2 powi E'"
    by (simp add: abs_mult)
  moreover have "0 \<le> M \<longrightarrow> 0 \<le> M'" by (simp add: M'_def round_half_even_nonneg)
  ultimately show ?thesis using b by auto
qed


lemma two_pow_le_real: "m \<le> n \<Longrightarrow> (2 :: real) ^ m \<le> 2 ^ n"
  by (rule power_increasing) simp_all

lemma float_of_len_finite:
  "\<exists>M E. float_of_len n = Finite M E \<and> \<bar>real_of_int M * 2 powi E\<bar> \<le> 2 ^ 65 \<and>
     (n < 2 ^ 63 \<longrightarrow> 0 \<le> M)"
proof -
  define w :: "64 word" where "w = word_of_nat n"
  have lo: "- (2 ^ 63) \<le> sint w" using sint_ge [of w] by simp
  have hi: "sint w < 2 ^ 63" using sint_lt [of w] by simp
  have "\<bar>sint w\<bar> \<le> 2 ^ 63" using lo hi by linarith
  then have "real_of_int \<bar>sint w\<bar> \<le> real_of_int (2 ^ 63)" by (rule of_int_le_iff [THEN iffD2])
  then have a: "\<bar>real_of_int (sint w) * 2 powi 0\<bar> \<le> 2 ^ 63" by simp
  have "(2 :: real) ^ 63 < 2 ^ 1000" by (rule power_strict_increasing) simp_all
  then have "\<bar>real_of_int (sint w) * 2 powi 0\<bar> < 2 ^ 1000" using a by linarith
  from round_double_finite [OF this] obtain M E where
    f: "round_double (sint w) 0 = Finite M E" and
    b: "\<bar>real_of_int M * 2 powi E\<bar> \<le> 2 * \<bar>real_of_int (sint w) * 2 powi 0\<bar> + 1" and
    p: "0 \<le> sint w \<longrightarrow> 0 \<le> M" by blast
  have "(1 :: real) \<le> 2 ^ 63" by (rule one_le_power) simp
  moreover have "(2 :: real) ^ 65 = 2 ^ 63 * 4" by simp
  ultimately have "\<bar>real_of_int M * 2 powi E\<bar> \<le> 2 ^ 65" using a b by linarith
  moreover have "n < 2 ^ 63 \<longrightarrow> 0 \<le> M" using p by (simp add: w_def sint_of_len)
  ultimately show ?thesis using f by (auto simp: float_of_len_def float_of_long_def w_def)
qed

lemma unit_ratio:
  assumes "float_less (Finite 0 0) r" and "float_less r (Finite 1 0)"
  shows "\<exists>m e. r = Finite m e \<and> 0 < m \<and> \<bar>real_of_int m * 2 powi e\<bar> < 1"
proof (cases r)
  case (Finite m e)
  have m: "0 < m" using assms(1) Finite by (simp add: zero_less_mult_iff)
  have lt: "m * 2 ^ nat (e - min e 0) < 2 ^ nat (0 - min e 0)" using assms(2) Finite by simp
  have "e < 0"
  proof (rule ccontr)
    assume "\<not> e < 0"
    then have "min e 0 = 0" by simp
    then have "m * 2 ^ nat e < 1" using lt by simp
    moreover have "1 * 1 \<le> m * 2 ^ nat e" using m by (intro mult_mono) simp_all
    ultimately show False by simp
  qed
  then have "m < 2 ^ nat (- e)" using lt by (simp add: min_def)
  then have "real_of_int m < real_of_int (2 ^ nat (- e))" by (rule of_int_less_iff [THEN iffD2])
  then have "real_of_int m < 2 ^ nat (- e)" by simp
  then have "real_of_int m * 2 powi e < 2 ^ nat (- e) * 2 powi e"
    by (rule mult_strict_right_mono) simp
  moreover have "(2 :: real) ^ nat (- e) * 2 powi e = 1"
    using \<open>e < 0\<close> by (simp add: power_int_def field_simps)
  ultimately have "real_of_int m * 2 powi e < 1" by simp
  moreover have "0 \<le> real_of_int m * 2 powi e" using m by simp
  ultimately show ?thesis using Finite m by auto
next
  case PosInf
  then show ?thesis using assms by simp
next
  case NegInf
  then show ?thesis using assms by simp
next
  case NaN
  then show ?thesis using assms by simp
qed

lemma py_int_finite: "\<exists>k. py_int (Finite M E) = Inr k \<and> (0 \<le> M \<longrightarrow> 0 \<le> k)"
  by (auto simp: pos_imp_zdiv_nonneg_iff)

text \<open>A finite ratio of moderate size never makes the conversion raise.\<close>

lemma moderate_ratio_size:
  assumes "\<bar>real_of_int m * 2 powi e\<bar> \<le> 2 ^ 900"
  shows "\<exists>k. ratio_size (Finite m e) n = Inr k \<and> (0 \<le> m \<longrightarrow> n < 2 ^ 63 \<longrightarrow> 0 \<le> k)"
proof -
  obtain M E where f: "float_of_len n = Finite M E" and
    b: "\<bar>real_of_int M * 2 powi E\<bar> \<le> 2 ^ 65" and p: "n < 2 ^ 63 \<longrightarrow> 0 \<le> M"
    using float_of_len_finite [of n] by blast
  have "\<bar>real_of_int (m * M) * 2 powi (e + E)\<bar>
      = \<bar>real_of_int m * 2 powi e\<bar> * \<bar>real_of_int M * 2 powi E\<bar>"
    by (simp add: two_powi_add abs_mult)
  also have "\<dots> \<le> 2 ^ 900 * 2 ^ 65" using assms b by (intro mult_mono) simp_all
  also have "\<dots> = (2 :: real) ^ 965" by (simp only: power_add [symmetric]) simp
  also have "\<dots> < (2 :: real) ^ 1000" by (rule power_strict_increasing) simp_all
  finally have "\<bar>real_of_int (m * M) * 2 powi (e + E)\<bar> < 2 ^ 1000" .
  from round_double_finite [OF this] obtain M' E' where
    rd: "round_double (m * M) (e + E) = Finite M' E'" and
    pos: "0 \<le> m * M \<longrightarrow> 0 \<le> M'" by blast
  have fm: "fmul (Finite m e) (float_of_len n) = Finite M' E'" by (simp add: fmul_def f rd)
  obtain k where k: "py_int (Finite M' E') = Inr k" and kp: "0 \<le> M' \<longrightarrow> 0 \<le> k"
    using py_int_finite [of M' E'] by blast
  have "0 \<le> m \<longrightarrow> n < 2 ^ 63 \<longrightarrow> 0 \<le> k"
  proof (intro impI)
    assume "0 \<le> m" and "n < 2 ^ 63"
    then have "0 \<le> m * M" using p by simp
    then show "0 \<le> k" using pos kp by simp
  qed
  then show ?thesis using fm k by (simp add: ratio_size_def)
qed

text \<open>For a ratio strictly between 0 and 1 the conversion never raises.\<close>

lemma unit_ratio_size:
  assumes "float_less (Finite 0 0) r" and "float_less r (Finite 1 0)"
  shows "\<exists>k. ratio_size r n = Inr k \<and> (n < 2 ^ 63 \<longrightarrow> 0 \<le> k)"
proof -
  obtain m e where r: "r = Finite m e" and m: "0 < m" and
    small: "\<bar>real_of_int m * 2 powi e\<bar> < 1"
    using unit_ratio [OF assms] by blast
  have "(1 :: real) \<le> 2 ^ 900" by (rule one_le_power) simp
  then have "\<bar>real_of_int m * 2 powi e\<bar> \<le> 2 ^ 900" using small by linarith
  from moderate_ratio_size [OF this, of n] show ?thesis using r m by auto
qed

lemma py_int_errors: "py_int x = Inl e \<Longrightarrow> e = OverflowError \<or> e = ValueError"
  by (cases x) auto

lemma ratio_size_errors: "ratio_size r n = Inl e \<Longrightarrow> e = OverflowError \<or> e = ValueError"
  unfolding ratio_size_def by (rule py_int_errors)

section \<open>Products that are computed below\<close>

lemma bitlen_eqI:
  assumes "2 ^ k \<le> x" and "x < 2 ^ Suc k"
  shows "bitlen x = int k + 1"
proof (rule antisym)
  have "x < 2 ^ nat (int k + 1)" using assms(2) by (simp add: nat_add_distrib)
  then show "bitlen x \<le> int k + 1" by (simp only: bitlen_le_iff_power) simp
  have "2 ^ (nat (int k + 1) - 1) \<le> x" using assms(1) by (simp add: nat_add_distrib)
  then show "int k + 1 \<le> bitlen x" by (simp only: bitlen_ge_iff_power) simp
qed


lemma round_half_even_0: "round_half_even M 0 = M"
  by (simp add: round_half_even_def)

lemma round_double_exact:
  assumes "\<bar>M\<bar> < 2 ^ 53" and "- 1074 \<le> E" and "E \<le> 971"
  shows "round_double M E = Finite M E"
proof -
  have "\<bar>M\<bar> < 2 ^ nat 53" using assms(1) by simp
  then have b: "bitlen \<bar>M\<bar> \<le> 53" by (simp only: bitlen_le_iff_power) simp
  have s: "nat (max 0 (max (bitlen \<bar>M\<bar> - 53) (- 1074 - E))) = 0" using assms(2) b by linarith
  have e0: "E + int 0 = E" by simp
  have no: "\<not> (0 \<le> E \<and> 2 ^ 1024 \<le> \<bar>M\<bar> * 2 ^ nat E)"
  proof
    assume a: "0 \<le> E \<and> 2 ^ 1024 \<le> \<bar>M\<bar> * 2 ^ nat E"
    have p: "(0 :: int) < 2 ^ nat E" by simp
    have "\<bar>M\<bar> * 2 ^ nat E < 2 ^ 53 * 2 ^ nat E"
      using assms(1) p by (rule mult_strict_right_mono)
    also have "\<dots> = (2 :: int) ^ (53 + nat E)" by (rule power_add [symmetric])
    also have "\<dots> \<le> 2 ^ 1024"
    proof (rule power_increasing)
      show "53 + nat E \<le> 1024" using assms(3) by linarith
      show "(1 :: int) \<le> 2" by simp
    qed
    finally have "\<bar>M\<bar> * 2 ^ nat E < 2 ^ 1024" .
    moreover have "(2 :: int) ^ 1024 \<le> \<bar>M\<bar> * 2 ^ nat E"
      using a by (rule conjunct2)
    ultimately show False by (rule less_le_not_le [THEN iffD1, THEN conjunct2, THEN notE])
  qed
  show ?thesis
    unfolding round_double_def s Let_def round_half_even_0 e0 by (simp only: no if_False)
qed


lemma float_of_len_small: "n < 2 ^ 53 \<Longrightarrow> float_of_len n = Finite (int n) 0"
proof -
  assume n: "n < 2 ^ 53"
  have "(2 :: nat) ^ 53 < 2 ^ 63" by (rule power_strict_increasing) simp_all
  then have "n < 2 ^ 63" using n by linarith
  then have s: "sint (word_of_nat n :: 64 word) = int n" by (rule sint_of_len)
  have "int n < int (2 ^ 53)" using n by (rule of_nat_less_iff [THEN iffD2])
  then have "\<bar>int n\<bar> < 2 ^ 53" by simp
  then have "round_double (int n) 0 = Finite (int n) 0" by (rule round_double_exact) simp_all
  then show ?thesis by (simp only: float_of_len_def float_of_long_def s)
qed

lemma ratio_size_half_4: "ratio_size d_half 4 = Inr 2"
  by (simp add: ratio_size_def d_half_def float_of_len_small fmul_def round_double_exact)

lemma ratio_size_half_0: "ratio_size d_half 0 = Inr 0"
  by (simp add: ratio_size_def d_half_def float_of_len_small fmul_def round_double_exact)

lemma ratio_size_1_5: "ratio_size d_1_5 2 = Inr 3"
  by (simp add: ratio_size_def d_1_5_def float_of_len_small fmul_def round_double_exact)

lemma ratio_size_0_7: "ratio_size d_0_7 10 = Inr 7"
proof -
  have b: "bitlen \<bar>63050394783186940\<bar> = 56"
    using bitlen_eqI [of 55 63050394783186940] by simp
  have "round_double 63050394783186940 (- 53) = Finite 7881299347898368 (- 50)"
    unfolding round_double_def b by (simp add: round_half_even_def Let_def)
  then show ?thesis
    by (simp add: ratio_size_def d_0_7_def float_of_len_small fmul_def)
qed

lemma ratio_size_0_29: "ratio_size d_0_29 100 = Inr 28"
proof -
  have b: "bitlen \<bar>522417556774977500\<bar> = 59"
    using bitlen_eqI [of 58 522417556774977500] by simp
  have "round_double 522417556774977500 (- 54) = Finite 8162774324609023 (- 48)"
    unfolding round_double_def b by (simp add: round_half_even_def Let_def)
  then show ?thesis
    by (simp add: ratio_size_def d_0_29_def float_of_len_small fmul_def)
qed

lemma doubles: "is_double d_half" "is_double d_1_5" "is_double d_0_7" "is_double d_0_29"
  by (simp_all add: is_double_def d_half_def d_1_5_def d_0_7_def d_0_29_def)

lemma ratio_size_nan: "ratio_size NaN n = Inl ValueError"
  using float_of_len_finite [of n] by (auto simp: ratio_size_def fmul_def)


lemma dval_0_7: "dval d_0_7 = 6305039478318694 / 2 ^ 53"
  by (simp add: dval_def d_0_7_def power_int_minus inverse_eq_divide)

lemma dval_0_29: "dval d_0_29 = 5224175567749775 / 2 ^ 54"
  by (simp add: dval_def d_0_29_def power_int_minus inverse_eq_divide)

lemma exact_0_7: "\<lfloor>dval d_0_7 * 10\<rfloor> = 6"
  unfolding dval_0_7 by (simp add: floor_eq_iff)

lemma near_0_29: "\<bar>dval d_0_29 - 29 / 100\<bar> < 1 / 2 ^ 55"
  unfolding dval_0_29 by (simp add: abs_if)

lemma round_overflow: "round_double 100 1023 = PosInf"
proof -
  have b: "bitlen \<bar>100\<bar> = 7" using bitlen_eqI [of 6 100] by simp
  have s: "nat (max 0 (max (7 - 53) (- 1074 - 1023))) = 0" by simp
  have e: "(1023 :: int) + int 0 = 1023" by simp
  have n: "nat 1023 = 1 + 1022" by simp
  have "(2 :: int) ^ 1024 = 2 ^ (2 + 1022)" by simp
  also have "\<dots> = 2 ^ 2 * 2 ^ 1022" by (rule power_add)
  also have "\<dots> \<le> 200 * 2 ^ 1022" by (rule mult_right_mono) simp_all
  also have "\<dots> = \<bar>100\<bar> * (2 ^ 1 * 2 ^ 1022)" by simp
  also have "\<dots> = \<bar>100\<bar> * 2 ^ nat 1023" unfolding n by (simp only: power_add)
  finally have c: "0 \<le> (1023 :: int) \<and> (2 :: int) ^ 1024 \<le> \<bar>100\<bar> * 2 ^ nat 1023" by simp
  show ?thesis
    unfolding round_double_def b s Let_def round_half_even_0 e
    by (simp only: c if_True) simp
qed

lemma ratio_size_overflow: "ratio_size (Finite 1 1023) 100 = Inl OverflowError"
  by (simp add: ratio_size_def float_of_len_small fmul_def round_overflow)

lemma round_double_zero: "\<exists>E'. round_double 0 E = Finite 0 E'"
proof -
  have "(0 :: int) < 2 ^ 1024" by simp
  then have "\<not> (2 :: int) ^ 1024 \<le> 0" by (simp only: not_le)
  then show ?thesis by (simp add: round_double_def round_half_even_zero Let_def)
qed

lemma ratio_size_zero: "ratio_size (Finite m e) 0 = Inr 0"
proof -
  have "float_of_len 0 = Finite 0 0" using float_of_len_small [of 0] by simp
  moreover obtain E' where "round_double 0 (e + 0) = Finite 0 E'"
    using round_double_zero [of "e + 0"] by blast
  ultimately show ?thesis by (simp add: ratio_size_def fmul_def)
qed


section \<open>Grouping and splitting keep every index once\<close>

lemma group_indices_snoc:
  "group_indices (ys @ [l]) = add_index (group_indices ys) l (length ys)"
  by (simp add: group_indices_def enumerate_append_eq)

lemma add_index_mset:
  "mset (concat (map snd (add_index d l i))) = add_mset i (mset (concat (map snd d)))"
  by (induction d l i rule: add_index.induct) auto

lemma group_indices_mset:
  "mset (concat (map snd (group_indices y))) = mset [0..<length y]"
proof (induction y rule: rev_induct)
  case Nil
  then show ?case by (simp add: group_indices_def)
next
  case (snoc l ys)
  then show ?case by (simp add: group_indices_snoc add_index_mset)
qed

lemma mset_concat_snd: "mset (concat (map snd d)) = (\<Sum>p\<in>#mset d. mset (snd p))"
  by (induction d) auto

lemma dict_items_mset:
  "items_permuted E \<Longrightarrow> mset (concat (map snd (dict_items E d))) = mset (concat (map snd d))"
  by (simp add: mset_concat_snd items_permuted_def)

lemma parts_append:
  "ratio_size r (length g) = Inr k \<Longrightarrow> train_part r g @ test_part r g = g"
  by (simp add: train_part_def test_part_def slice_to_from_append)

text \<open>
  The loop over the groups either raises what a conversion raises or returns the
  two concatenations.
\<close>

lemma split_groups_Inl:
  "split_groups r items (train, test) = Inl e \<Longrightarrow> e = OverflowError \<or> e = ValueError"
proof (induction items arbitrary: train test)
  case Nil
  then show ?case by simp
next
  case (Cons p items)
  obtain l ixs where p: "p = (l, ixs)" by (cases p)
  show ?case
  proof (cases "ratio_size r (length ixs)")
    case (Inl e')
    then have "e' = e" using Cons.prems p by simp
    then show ?thesis using Inl ratio_size_errors by blast
  next
    case (Inr k)
    then show ?thesis using Cons p by simp
  qed
qed

lemma split_groups_ok:
  "\<forall>p \<in> set items. \<exists>k. ratio_size r (length (snd p)) = Inr k \<Longrightarrow>
   split_groups r items (train, test) =
     Inr (train @ concat (map (\<lambda>p. train_part r (snd p)) items),
          test @ concat (map (\<lambda>p. test_part r (snd p)) items))"
proof (induction items arbitrary: train test)
  case Nil
  then show ?case by simp
next
  case (Cons p items)
  obtain l ixs where p: "p = (l, ixs)" by (cases p)
  obtain k where k: "ratio_size r (length ixs) = Inr k" using Cons.prems p by auto
  have "\<forall>p \<in> set items. \<exists>k. ratio_size r (length (snd p)) = Inr k" using Cons.prems by simp
  from Cons.IH [OF this] show ?case
    using p k by (simp add: train_part_def test_part_def)
qed

lemma split_groups_Inr:
  "split_groups r items (train, test) = Inr (a, b) \<Longrightarrow>
   \<forall>p \<in> set items. \<exists>k. ratio_size r (length (snd p)) = Inr k"
proof (induction items arbitrary: train test)
  case Nil
  then show ?case by simp
next
  case (Cons p items)
  obtain l ixs where p: "p = (l, ixs)" by (cases p)
  show ?case
  proof (cases "ratio_size r (length ixs)")
    case (Inl e)
    then show ?thesis using Cons.prems p by simp
  next
    case (Inr k)
    then have "split_groups r items (train @ slice_to ixs k, test @ slice_from ixs k) = Inr (a, b)"
      using Cons.prems p by simp
    from Cons.IH [OF this] show ?thesis using Inr p by simp
  qed
qed

lemma parts_concat_mset:
  "\<forall>p \<in> set items. \<exists>k. ratio_size r (length (snd p)) = Inr k \<Longrightarrow>
   mset (concat (map (\<lambda>p. train_part r (snd p)) items))
     + mset (concat (map (\<lambda>p. test_part r (snd p)) items))
     = mset (concat (map snd items))"
proof (induction items)
  case Nil
  then show ?case by simp
next
  case (Cons p items)
  obtain k where "ratio_size r (length (snd p)) = Inr k" using Cons.prems by auto
  then have "mset (train_part r (snd p)) + mset (test_part r (snd p)) = mset (snd p)"
    using parts_append [of r "snd p" k] by (metis mset_append)
  moreover have "mset (concat (map (\<lambda>p. train_part r (snd p)) items))
     + mset (concat (map (\<lambda>p. test_part r (snd p)) items))
     = mset (concat (map snd items))" using Cons by simp
  ultimately show ?case by (simp add: ac_simps)
qed

text \<open>Two index lists that together hold each of \<open>0, ..., n - 1\<close> once partition the range.\<close>

lemma partition_of_mset:
  assumes "mset train + mset test = mset [0..<n]"
  shows "length train + length test = n \<and> set train \<inter> set test = {} \<and>
         set train \<union> set test = {0..<n} \<and> distinct train \<and> distinct test"
proof -
  have m: "mset (train @ test) = mset [0..<n]" using assms by simp
  have "distinct (train @ test)" using m by (metis distinct_upt mset_eq_imp_distinct_iff)
  moreover have "set (train @ test) = {0..<n}" using m by (metis mset_eq_setD set_upt)
  moreover have "length (train @ test) = n"
    using m by (metis mset_eq_length length_upt diff_zero)
  ultimately show ?thesis by auto
qed

text \<open>What \<open>split\<close> returns on the plain path and on the stratified path.\<close>

lemma split_plain:
  "fst (split E self y r False) =
     (case ratio_size r (length y) of
        Inl e \<Rightarrow> Inl e
      | Inr k \<Rightarrow>
          Inr (slice_to (fst (shuffle_if E (flush_rng E self) [0..<length y])) k,
               slice_from (fst (shuffle_if E (flush_rng E self) [0..<length y])) k))"
  by (simp add: split_def Let_def case_prod_beta split: sum.split)

lemma split_stratified_eq:
  "fst (split E self y r True) =
     (case split_groups r (dict_items E (group_indices y)) ([], []) of
        Inl e \<Rightarrow> Inl e
      | Inr (train, test) \<Rightarrow>
          Inr (fst (shuffle_if E (flush_rng E self) train),
               fst (shuffle_if E (snd (shuffle_if E (flush_rng E self) train)) test)))"
  by (simp add: split_def Let_def case_prod_beta split: sum.split)

lemma split_Inl:
  assumes "fst (split E self y r stratify) = Inl e"
  shows "e = OverflowError \<or> e = ValueError"
proof (cases stratify)
  case False
  then show ?thesis
    using assms ratio_size_errors [of r "length y" e]
    by (simp add: split_plain split: sum.splits)
next
  case True
  then show ?thesis
    using assms split_groups_Inl [of r "dict_items E (group_indices y)" "[]" "[]" e]
    by (simp add: split_stratified_eq split: sum.splits prod.splits)
qed

lemma split_Inr_all_indices:
  assumes "items_permuted E" and "fst (split E self y r stratify) = Inr (train, test)"
  shows "mset train + mset test = mset [0..<length y]"
proof (cases stratify)
  case False
  let ?P = "fst (shuffle_if E (flush_rng E self) [0..<length y])"
  obtain k where k: "ratio_size r (length y) = Inr k" and
    tt: "train = slice_to ?P k" "test = slice_from ?P k"
    using assms(2) False by (auto simp: split_plain split: sum.splits)
  have "mset ?P = mset [0..<length y]" by (rule shuffle_if_mset)
  then show ?thesis
    unfolding tt using slice_to_from_append [of ?P k] by (metis mset_append)
next
  case True
  let ?items = "dict_items E (group_indices y)"
  obtain tr te where sg: "split_groups r ?items ([], []) = Inr (tr, te)" and
    tt: "train = fst (shuffle_if E (flush_rng E self) tr)"
        "test = fst (shuffle_if E (snd (shuffle_if E (flush_rng E self) tr)) te)"
    using assms(2) True by (auto simp: split_stratified_eq split: sum.splits)
  have ok: "\<forall>p \<in> set ?items. \<exists>k. ratio_size r (length (snd p)) = Inr k"
    using split_groups_Inr [OF sg] .
  have "tr = concat (map (\<lambda>p. train_part r (snd p)) ?items)"
       "te = concat (map (\<lambda>p. test_part r (snd p)) ?items)"
    using split_groups_ok [OF ok, of "[]" "[]"] sg by simp_all
  then have "mset tr + mset te = mset (concat (map snd ?items))"
    using parts_concat_mset [OF ok] by simp
  also have "\<dots> = mset [0..<length y]"
    using dict_items_mset [OF assms(1)] group_indices_mset by metis
  finally show ?thesis by (simp add: tt shuffle_if_mset)
qed

lemma split_returns:
  assumes "\<forall>n. \<exists>k. ratio_size r n = Inr k"
  shows "\<exists>train test. fst (split E self y r stratify) = Inr (train, test)"
proof (cases stratify)
  case False
  obtain k where "ratio_size r (length y) = Inr k" using assms by blast
  then show ?thesis using False by (simp add: split_plain)
next
  case True
  have "\<forall>p \<in> set (dict_items E (group_indices y)). \<exists>k. ratio_size r (length (snd p)) = Inr k"
    using assms by blast
  from split_groups_ok [OF this, of "[]" "[]"] show ?thesis
    using True by (simp add: split_stratified_eq)
qed

text \<open>When no conversion raises, \<open>split\<close> returns every index once.\<close>

lemma split_returns_all_indices:
  assumes "items_permuted E" and "\<forall>n. \<exists>k. ratio_size r n = Inr k"
  shows "\<exists>train test. fst (split E self y r stratify) = Inr (train, test) \<and>
           mset train + mset test = mset [0..<length y]"
proof -
  obtain train test where r: "fst (split E self y r stratify) = Inr (train, test)"
    using split_returns [OF assms(2)] by blast
  from split_Inr_all_indices [OF assms(1) r] r show ?thesis by blast
qed

lemma test_runtime_items: "items_permuted test_runtime"
  by (simp add: items_permuted_def test_runtime_def)

section \<open>Label groups\<close>

lemma add_index_map_in:
  "distinct ks \<Longrightarrow> l \<in> set ks \<Longrightarrow>
   add_index (map (\<lambda>k. (k, f k)) ks) l i =
     map (\<lambda>k. (k, if k = l then f k @ [i] else f k)) ks"
  by (induction ks) auto

lemma add_index_map_notin:
  "l \<notin> set ks \<Longrightarrow>
   add_index (map (\<lambda>k. (k, f k)) ks) l i = map (\<lambda>k. (k, f k)) ks @ [(l, [i])]"
  by (induction ks) auto

lemma label_group_snoc:
  "label_group (ys @ [x]) l = label_group ys l @ (if x = l then [length ys] else [])"
proof -
  have "filter (\<lambda>i. (ys @ [x]) ! i = l) [0..<length ys]
      = filter (\<lambda>i. ys ! i = l) [0..<length ys]"
    by (rule filter_cong) (auto simp: nth_append)
  then show ?thesis by (simp add: label_group_def)
qed

lemma labels_seen_snoc:
  "labels_seen (ys @ [x]) = (if x \<in> set ys then labels_seen ys else labels_seen ys @ [x])"
  by (simp add: labels_seen_def)

lemma labels_seen_set: "set (labels_seen y) = set y"
  by (simp add: labels_seen_def)

lemma labels_seen_distinct: "distinct (labels_seen y)"
  by (simp add: labels_seen_def)

lemma label_group_notin: "l \<notin> set y \<Longrightarrow> label_group y l = []"
  by (auto simp: label_group_def filter_empty_conv)

text \<open>The dict the grouping loop builds: each label seen, with its group.\<close>

lemma group_indices_eq:
  "group_indices y = map (\<lambda>l. (l, label_group y l)) (labels_seen y)"
proof (induction y rule: rev_induct)
  case Nil
  then show ?case by (simp add: group_indices_def labels_seen_def)
next
  case (snoc x ys)
  show ?case
  proof (cases "x \<in> set ys")
    case True
    then have "add_index (map (\<lambda>l. (l, label_group ys l)) (labels_seen ys)) x (length ys)
        = map (\<lambda>k. (k, if k = x then label_group ys k @ [length ys] else label_group ys k))
            (labels_seen ys)"
      by (intro add_index_map_in) (simp_all add: labels_seen_set labels_seen_distinct)
    then show ?thesis using True snoc
      by (simp add: group_indices_snoc labels_seen_snoc label_group_snoc)
  next
    case False
    then have "add_index (map (\<lambda>l. (l, label_group ys l)) (labels_seen ys)) x (length ys)
        = map (\<lambda>l. (l, label_group ys l)) (labels_seen ys) @ [(x, [length ys])]"
      by (intro add_index_map_notin) (simp add: labels_seen_set)
    moreover have "map (\<lambda>l. (l, label_group (ys @ [x]) l)) (labels_seen ys)
        = map (\<lambda>l. (l, label_group ys l)) (labels_seen ys)"
      using False by (intro map_cong) (auto simp: label_group_snoc labels_seen_set)
    ultimately show ?thesis using False snoc
      by (simp add: group_indices_snoc labels_seen_snoc label_group_snoc label_group_notin)
  qed
qed

section \<open>Contiguous slices\<close>

lemma xrange_eq: "xrange n = map int [0..<nat n]"
proof (rule nth_equalityI)
  show "length (xrange n) = length (map int [0..<nat n])" by (simp add: xrange_def)
next
  fix i assume "i < length (xrange n)"
  then show "xrange n ! i = map int [0..<nat n] ! i" by (simp add: xrange_def)
qed

lemma slice_nonneg: "slice xs (int a) (int b) = take (b - a) (drop a xs)"
  by (cases "a \<le> length xs") (auto simp: slice_def slice_bound_def Let_def min_def)

lemma slice_from_nonneg: "slice_from xs (int a) = drop a xs"
  by (auto simp: slice_from_def slice_bound_def min_def)

lemma plain_fold_kth:
  assumes "1 \<le> n" and "k < nat n"
  shows "plain_fold P n (int (length P) div n) (int k) = kth_slice (nat n) k P"
proof -
  define N where "N = nat n"
  define F where "F = length P div N"
  have n: "n = int N" using assms(1) by (simp add: N_def)
  have F: "int (length P) div n = int F" by (simp add: n F_def zdiv_int)
  have lt: "int k < n - 1 \<longleftrightarrow> k < N - 1" using assms n by auto
  have 1: "int k * int F = int (k * F)" by simp
  have 2: "(int k + 1) * int F = int (k * F + F)" by (simp add: algebra_simps)
  show ?thesis
    unfolding plain_fold_def F lt 1 2 slice_nonneg slice_from_nonneg kth_slice_def
    by (simp add: N_def F_def)
qed

lemma take_slices_concat:
  "concat (map (\<lambda>k. take F (drop (k * F) P)) [0..<m]) = take (m * F) P"
proof (induction m)
  case 0
  then show ?case by simp
next
  case (Suc m)
  have "take (Suc m * F) P = take (m * F + F) P" by (simp add: add.commute)
  also have "\<dots> = take (m * F) P @ take F (drop (m * F) P)" by (rule take_add)
  finally show ?case using Suc by simp
qed

lemma kth_slices_concat:
  assumes "0 < N"
  shows "concat (map (\<lambda>k. kth_slice N k P) [0..<N]) = P"
proof -
  obtain M where N: "N = Suc M" using assms by (cases N) auto
  have "map (\<lambda>k. kth_slice N k P) [0..<M]
      = map (\<lambda>k. take (length P div N) (drop (k * (length P div N)) P)) [0..<M]"
    by (rule map_cong) (auto simp: kth_slice_def N)
  then have "concat (map (\<lambda>k. kth_slice N k P) [0..<M]) = take (M * (length P div N)) P"
    by (simp only: take_slices_concat)
  moreover have "kth_slice N M P = drop (M * (length P div N)) P"
    by (simp add: kth_slice_def N)
  ultimately show ?thesis by (simp add: N)
qed

lemma kth_slice_length:
  assumes "k < N"
  shows "length (kth_slice N k P) =
           (if k < N - 1 then length P div N else length P div N + length P mod N)"
proof -
  define F where "F = length P div N"
  have N: "0 < N" using assms by simp
  have le: "(N - 1) * F \<le> length P"
  proof -
    have "(N - 1) * F \<le> N * F" by simp
    also have "\<dots> \<le> length P" by (simp add: F_def)
    finally show ?thesis .
  qed
  show ?thesis
  proof (cases "k < N - 1")
    case True
    then have "(k + 1) * F \<le> (N - 1) * F" by (intro mult_le_mono1) simp
    then have "k * F + F \<le> length P" using le by (simp add: algebra_simps)
    then show ?thesis using True by (simp add: kth_slice_def F_def)
  next
    case False
    then have k: "k = N - 1" using assms by simp
    have "length P = N * F + length P mod N" by (simp add: F_def)
    also have "N * F = (N - 1) * F + F" using N by (cases N) simp_all
    finally have "length P - (N - 1) * F = F + length P mod N" by simp
    then show ?thesis using False k by (simp add: kth_slice_def F_def)
  qed
qed

lemma permuted_range_eq:
  "fst (shuffle_if E (flush_rng E self) [0..<n]) = permuted_range E self n"
  by (simp add: permuted_range_def shuffle_if_def self_shuffle_def flush_rng_config
      split: prod.split)

lemma permuted_range_mset: "mset (permuted_range E self n) = mset [0..<n]"
  unfolding permuted_range_eq [symmetric] by (rule shuffle_if_mset)

lemma permuted_range_length: "length (permuted_range E self n) = n"
  using permuted_range_mset [of E self n] by (metis mset_eq_length length_upt diff_zero)

text \<open>The folds of the plain path, for \<open>n_folds \<ge> 1\<close>.\<close>

lemma make_k_folds_plain:
  assumes "1 \<le> n_folds"
  shows "fst (make_k_folds E self y n_folds False) =
           (map (\<lambda>k. kth_slice (nat n_folds) k (permuted_range E self (length y)))
                [0..<nat n_folds], None)"
proof -
  obtain P s1 where sh: "shuffle_if E (flush_rng E self) [0..<length y] = (P, s1)"
    by (cases "shuffle_if E (flush_rng E self) [0..<length y]")
  have P: "P = permuted_range E self (length y)"
    using permuted_range_eq [of E self "length y"] sh by simp
  have len: "length P = length y" by (simp add: P permuted_range_length)
  have "map (plain_fold P n_folds (int (length y) div n_folds)) (xrange n_folds)
      = map (\<lambda>k. kth_slice (nat n_folds) k P) [0..<nat n_folds]"
    unfolding xrange_eq map_map
    by (rule map_cong) (use assms len plain_fold_kth [of n_folds _ P] in auto)
  then show ?thesis using assms sh P
    by (simp add: make_k_folds_def Let_def py_floordiv_def)
qed

lemma upt_3: "[0..<3] = [0, 1, 2 :: nat]"
  by (simp add: eval_nat_numeral)

lemma upt_5: "[0..<5] = [0, 1, 2, 3, 4 :: nat]"
  by (simp add: eval_nat_numeral)

lemma upt_10: "[0..<10] = [0, 1, 2, 3, 4, 5, 6, 7, 8, 9 :: nat]"
  by (simp add: eval_nat_numeral)

lemma distinct_set_of_mset:
  "mset xs = mset [0..<n] \<Longrightarrow> distinct xs \<and> set xs = {0..<n}"
  by (metis distinct_upt mset_eq_imp_distinct_iff mset_eq_setD set_upt)

section \<open>Stratified folds\<close>

lemma fold_groups_kth:
  assumes "1 \<le> n" and "k < nat n"
  shows "fold_groups n (int k) items acc = acc @ concat (map (\<lambda>p. kth_slice (nat n) k (snd p)) items)"
proof (induction items arbitrary: acc)
  case Nil
  then show ?case by simp
next
  case (Cons p items)
  obtain l ixs where p: "p = (l, ixs)" by (cases p)
  have ne: "int k \<noteq> n - 1 \<longleftrightarrow> int k < n - 1" using assms by auto
  have "(if int k \<noteq> n - 1
         then slice ixs (int k * (int (length ixs) div n)) ((int k + 1) * (int (length ixs) div n))
         else slice_from ixs (int k * (int (length ixs) div n))) = kth_slice (nat n) k ixs"
    using plain_fold_kth [OF assms, of ixs] unfolding plain_fold_def ne .
  then show ?case using Cons p by (simp add: Let_def)
qed

lemma stratified_folds_length: "length (fst (stratified_folds E n d ks self)) = length ks"
  by (induction ks arbitrary: self) (simp_all add: Let_def case_prod_beta)

lemma stratified_folds_mset:
  "map mset (fst (stratified_folds E n d ks self)) =
     map (\<lambda>k. mset (fold_groups n k (dict_items E d) [])) ks"
proof (induction ks arbitrary: self)
  case Nil
  then show ?case by simp
next
  case (Cons k ks)
  obtain f s1 where f: "shuffle_if E self (fold_groups n k (dict_items E d) []) = (f, s1)"
    by (cases "shuffle_if E self (fold_groups n k (dict_items E d) [])")
  have "mset f = mset (fold_groups n k (dict_items E d) [])"
    using shuffle_if_mset [of E self "fold_groups n k (dict_items E d) []"] f by simp
  then show ?case using Cons [of s1] f by (simp add: Let_def case_prod_beta)
qed


lemma sum_list_swap:
  fixes f :: "'b \<Rightarrow> 'c \<Rightarrow> 'd :: comm_monoid_add"
  shows "(\<Sum>k\<leftarrow>ks. \<Sum>l\<leftarrow>ls. f k l) = (\<Sum>l\<leftarrow>ls. \<Sum>k\<leftarrow>ks. f k l)"
  by (induction ls) (simp_all add: sum_list_addf)

lemma mset_concat_map: "mset (concat (map g xs)) = (\<Sum>x\<leftarrow>xs. mset (g x))"
  by (simp add: mset_concat comp_def)

lemma mset_concat_items:
  "items_permuted E \<Longrightarrow>
   mset (concat (map (\<lambda>p. g (snd p)) (dict_items E d))) = mset (concat (map (\<lambda>p. g (snd p)) d))"
proof -
  have *: "\<And>xs. mset (concat (map (\<lambda>p. g (snd p)) xs)) = (\<Sum>p\<in>#mset xs. mset (g (snd p)))"
    by (induct_tac xs) auto
  show "items_permuted E \<Longrightarrow> ?thesis" by (simp add: * items_permuted_def)
qed

text \<open>Fold k across the label groups, in first-seen order of the labels.\<close>

lemma strat_fold_mset:
  assumes "items_permuted E" and "1 \<le> n" and "k < nat n"
  shows "mset (fold_groups n (int k) (dict_items E (group_indices y)) [])
       = mset (concat (map (\<lambda>l. kth_slice (nat n) k (label_group y l)) (labels_seen y)))"
proof -
  have "mset (fold_groups n (int k) (dict_items E (group_indices y)) [])
      = mset (concat (map (\<lambda>p. kth_slice (nat n) k (snd p)) (dict_items E (group_indices y))))"
    by (simp add: fold_groups_kth [OF assms(2,3)])
  also have "\<dots> = mset (concat (map (\<lambda>p. kth_slice (nat n) k (snd p)) (group_indices y)))"
    by (rule mset_concat_items [OF assms(1)])
  also have "\<dots> = mset (concat (map (\<lambda>l. kth_slice (nat n) k (label_group y l)) (labels_seen y)))"
    by (simp add: group_indices_eq comp_def)
  finally show ?thesis .
qed

lemma label_groups_mset:
  "mset (concat (map (label_group y) (labels_seen y))) = mset [0..<length y]"
  using group_indices_mset [of y] by (simp add: group_indices_eq comp_def)

lemma strat_slices_cover:
  assumes "0 < K"
  shows "(\<Sum>k\<leftarrow>[0..<K]. mset (concat (map (\<lambda>l. kth_slice K k (label_group y l)) (labels_seen y))))
       = mset [0..<length y]"
proof -
  have "(\<Sum>k\<leftarrow>[0..<K]. mset (concat (map (\<lambda>l. kth_slice K k (label_group y l)) (labels_seen y))))
      = (\<Sum>k\<leftarrow>[0..<K]. \<Sum>l\<leftarrow>labels_seen y. mset (kth_slice K k (label_group y l)))"
    by (simp add: mset_concat_map)
  also have "\<dots> = (\<Sum>l\<leftarrow>labels_seen y. \<Sum>k\<leftarrow>[0..<K]. mset (kth_slice K k (label_group y l)))"
    by (rule sum_list_swap)
  also have "\<dots> = (\<Sum>l\<leftarrow>labels_seen y. mset (concat (map (\<lambda>k. kth_slice K k (label_group y l)) [0..<K])))"
    by (simp add: mset_concat_map)
  also have "\<dots> = (\<Sum>l\<leftarrow>labels_seen y. mset (label_group y l))"
    by (simp add: kth_slices_concat [OF assms])
  also have "\<dots> = mset [0..<length y]"
    using label_groups_mset [of y] by (simp add: mset_concat_map)
  finally show ?thesis .
qed

lemma make_k_folds_stratified:
  assumes "items_permuted E" and "1 \<le> n_folds"
  shows "\<exists>folds. fst (make_k_folds E self y n_folds True) = (folds, None) \<and>
           length folds = nat n_folds \<and>
           (\<forall>k < nat n_folds. mset (folds ! k) =
              mset (concat (map (\<lambda>l. kth_slice (nat n_folds) k (label_group y l)) (labels_seen y)))) \<and>
           mset (concat folds) = mset [0..<length y]"
proof -
  define K where "K = nat n_folds"
  define folds where
    "folds = fst (stratified_folds E n_folds (group_indices y) (xrange n_folds) (flush_rng E self))"
  have K: "0 < K" using assms(2) by (simp add: K_def)
  have 1: "fst (make_k_folds E self y n_folds True) = (folds, None)"
    by (simp add: make_k_folds_def Let_def folds_def split: prod.split)
  have 2: "length folds = K"
    by (simp add: folds_def stratified_folds_length xrange_eq K_def)
  have m: "map mset folds = map (\<lambda>k. mset (concat (map (\<lambda>l. kth_slice K k (label_group y l)) (labels_seen y)))) [0..<K]"
    unfolding folds_def stratified_folds_mset xrange_eq map_map K_def
    by (rule map_cong) (use strat_fold_mset [OF assms(1,2), of _ y] in auto)
  have 3: "\<forall>k < K. mset (folds ! k) =
              mset (concat (map (\<lambda>l. kth_slice K k (label_group y l)) (labels_seen y)))"
  proof (intro allI impI)
    fix k assume k: "k < K"
    have "mset (folds ! k) = map mset folds ! k" using k 2 by simp
    also have "\<dots> = mset (concat (map (\<lambda>l. kth_slice K k (label_group y l)) (labels_seen y)))"
      unfolding m using k by simp
    finally show "mset (folds ! k) = mset (concat (map (\<lambda>l. kth_slice K k (label_group y l)) (labels_seen y)))" .
  qed
  have "mset (concat folds) = sum_list (map mset folds)" by (simp add: mset_concat)
  also have "\<dots> = mset [0..<length y]"
    unfolding m using strat_slices_cover [OF K, of y] by (simp add: comp_def)
  finally have 4: "mset (concat folds) = mset [0..<length y]" .
  show ?thesis using 1 2 3 4 unfolding K_def by blast
qed


section \<open>What a label owns of a fold\<close>

lemma label_group_label: "i \<in> set (label_group y l) \<Longrightarrow> y ! i = l"
  by (simp add: label_group_def)

lemma label_group_nonempty: "l \<in> set y \<Longrightarrow> label_group y l \<noteq> []"
  by (auto simp: label_group_def filter_empty_conv in_set_conv_nth)

lemma concat_single:
  "distinct ls \<Longrightarrow> concat (map (\<lambda>l'. if l' = l then a else []) ls) = (if l \<in> set ls then a else [])"
  by (induction ls) auto

text \<open>Of a concatenation of pieces of the label groups, label l owns its own piece.\<close>

lemma filter_label_concat:
  assumes "\<And>xs. set (g xs) \<subseteq> set xs"
  shows "filter (\<lambda>i. y ! i = l) (concat (map (\<lambda>l'. g (label_group y l')) (labels_seen y)))
       = g (label_group y l)"
proof -
  have piece: "filter (\<lambda>i. y ! i = l) (g (label_group y l')) = (if l' = l then g (label_group y l) else [])" for l'
  proof (cases "l' = l")
    case True
    have "\<forall>i \<in> set (g (label_group y l)). y ! i = l"
      using assms [of "label_group y l"] label_group_label [of _ y l] by blast
    then show ?thesis using True by (simp add: filter_id_conv)
  next
    case False
    have "\<forall>i \<in> set (g (label_group y l')). y ! i \<noteq> l"
      using assms [of "label_group y l'"] label_group_label [of _ y l'] False by blast
    then show ?thesis using False by (simp add: filter_empty_conv)
  qed
  have "filter (\<lambda>i. y ! i = l) (concat (map (\<lambda>l'. g (label_group y l')) (labels_seen y)))
      = concat (map (\<lambda>l'. if l' = l then g (label_group y l) else []) (labels_seen y))"
    by (simp add: filter_concat comp_def piece)
  also have "\<dots> = (if l \<in> set y then g (label_group y l) else [])"
    by (simp add: concat_single labels_seen_distinct labels_seen_set)
  also have "\<dots> = g (label_group y l)"
    using assms [of "[]"] by (simp add: label_group_notin)
  finally show ?thesis .
qed

lemma kth_slice_subset: "set (kth_slice n k xs) \<subseteq> set xs"
  by (auto simp: kth_slice_def dest: in_set_takeD in_set_dropD)

lemma fold_label_part:
  assumes "mset f = mset (concat (map (\<lambda>l. kth_slice K k (label_group y l)) (labels_seen y)))"
  shows "filter_mset (\<lambda>i. y ! i = l) (mset f) = mset (kth_slice K k (label_group y l))"
proof -
  have "filter_mset (\<lambda>i. y ! i = l) (mset f)
      = mset (filter (\<lambda>i. y ! i = l) (concat (map (\<lambda>l. kth_slice K k (label_group y l)) (labels_seen y))))"
    by (simp add: assms)
  then show ?thesis
    by (simp only: filter_label_concat [of "kth_slice K k", OF kth_slice_subset])
qed

lemma kth_slice_small:
  assumes "length xs < K"
  shows "kth_slice K k xs = (if k < K - 1 then [] else xs)"
  using assms by (simp add: kth_slice_def)


section \<open>Folds and the pairs built from them\<close>

lemma flush_rng_idem: "flush_rng E (flush_rng E self) = flush_rng E self"
  by (simp add: flush_rng_def split: option.split)

lemma make_k_folds_flush:
  "make_k_folds E (flush_rng E self) y n stratify = make_k_folds E self y n stratify"
  by (simp add: make_k_folds_def flush_rng_idem)

lemma k_fold_split_eq:
  "k_fold_split E self y n stratify =
     (case make_k_folds E self y n stratify of
        ((folds, Some e), self') \<Rightarrow> (([], Some e), self')
      | ((folds, None), self') \<Rightarrow> (k_fold_pairs folds (xrange n), self'))"
  by (simp add: k_fold_split_def make_k_folds_flush)

lemma make_k_folds_cover:
  assumes "items_permuted E" and "1 \<le> n_folds"
  shows "\<exists>folds. fst (make_k_folds E self y n_folds stratify) = (folds, None) \<and>
           length folds = nat n_folds \<and> mset (concat folds) = mset [0..<length y]"
proof (cases stratify)
  case True
  then show ?thesis using make_k_folds_stratified [OF assms, of self y] by auto
next
  case False
  have "0 < nat n_folds" using assms(2) by simp
  then have "concat (map (\<lambda>k. kth_slice (nat n_folds) k (permuted_range E self (length y)))
                [0..<nat n_folds]) = permuted_range E self (length y)"
    by (rule kth_slices_concat)
  then show ?thesis
    using False make_k_folds_plain [OF assms(2), of E self y]
    by (simp add: permuted_range_mset)
qed

lemma all_but_mset:
  assumes "i < length folds"
  shows "mset (all_but i folds) + mset (folds ! i) = mset (concat folds)"
proof -
  have "concat folds = concat (take i folds @ folds ! i # drop (Suc i) folds)"
    using id_take_nth_drop [OF assms] by simp
  then show ?thesis by (simp add: all_but_def)
qed

lemma k_fold_pairs_eq:
  assumes "2 \<le> length folds" and "\<forall>i \<in> set ns. i < length folds"
  shows "k_fold_pairs folds (map int ns) = (map (\<lambda>i. (all_but i folds, folds ! i)) ns, None)"
  using assms(2)
proof (induction ns)
  case Nil
  then show ?case by simp
next
  case (Cons i ns)
  then have i: "i < length folds" by simp
  have st: "slice_to folds (int i) = take i folds"
    using i by (simp add: slice_to_def slice_bound_def)
  have sf: "slice_from folds (int i + 1) = drop (Suc i) folds"
    using slice_from_nonneg [of folds "Suc i"] by (simp add: add.commute)
  have "length (take i folds @ drop (Suc i) folds) = length folds - 1" using i by simp
  then have "0 < length (take i folds @ drop (Suc i) folds)" using assms(1) by linarith
  then have ne: "take i folds @ drop (Suc i) folds \<noteq> []" by (rule iffD1 [OF length_greater_0_conv])
  have cat: "np_concatenate (slice_to folds (int i) @ slice_from folds (int i + 1)) = Inr (all_but i folds)"
    unfolding st sf np_concatenate_def all_but_def by (simp only: ne if_False)
  have gi: "py_getitem folds (int i) = Inr (folds ! i)" using i by (simp add: py_getitem_def)
  show ?case using Cons cat gi by simp
qed

section \<open>Seeding and the unshuffled results\<close>




lemma shuffle_if_off: "\<not> shuffle self \<Longrightarrow> shuffle_if E self x = (x, self)"
  by (simp add: shuffle_if_def)

lemma split_unshuffled:
  assumes "\<not> shuffle self"
  shows "fst (split E self y r stratify) =
           (if stratify then split_groups r (dict_items E (group_indices y)) ([], [])
            else (case ratio_size r (length y) of
                    Inl e \<Rightarrow> Inl e
                  | Inr k \<Rightarrow> Inr (slice_to [0..<length y] k, slice_from [0..<length y] k)))"
proof -
  have off: "\<not> shuffle (flush_rng E self)" using assms by (simp add: flush_rng_config)
  show ?thesis
  proof (cases stratify)
    case False
    then show ?thesis using off by (simp add: split_plain shuffle_if_off split: sum.split)
  next
    case True
    then show ?thesis using off
      by (simp add: split_stratified_eq shuffle_if_off split: sum.split)
  qed
qed


lemma k_fold_split_fst:
  "fst (k_fold_split E self y n stratify) =
     (case fst (make_k_folds E self y n stratify) of
        (folds, Some e) \<Rightarrow> ([], Some e)
      | (folds, None) \<Rightarrow> k_fold_pairs folds (xrange n))"
  by (simp add: k_fold_split_eq split: prod.split option.split)

section \<open>The stratified split\<close>

lemma groups_concat_mset:
  assumes "items_permuted E"
  shows "mset (concat (map (\<lambda>p. g (snd p)) (dict_items E (group_indices y))))
       = mset (concat (map (\<lambda>l. g (label_group y l)) (labels_seen y)))"
proof -
  have "mset (concat (map (\<lambda>p. g (snd p)) (dict_items E (group_indices y))))
      = mset (concat (map (\<lambda>p. g (snd p)) (group_indices y)))"
    by (rule mset_concat_items [OF assms])
  also have "\<dots> = mset (concat (map (\<lambda>l. g (label_group y l)) (labels_seen y)))"
    by (simp add: group_indices_eq comp_def)
  finally show ?thesis .
qed

lemma slice_to_subset: "set (slice_to g k) \<subseteq> set g"
  by (auto simp: slice_to_def dest: in_set_takeD)

lemma slice_from_subset: "set (slice_from g k) \<subseteq> set g"
  by (auto simp: slice_from_def dest: in_set_dropD)

lemma train_part_subset: "set (train_part r g) \<subseteq> set g"
  using slice_to_subset [of g] by (auto simp: train_part_def split: sum.splits)

lemma test_part_subset: "set (test_part r g) \<subseteq> set g"
  using slice_from_subset [of g] by (auto simp: test_part_def split: sum.splits)

lemma label_part:
  assumes "mset xs = mset (concat (map (\<lambda>l. g (label_group y l)) (labels_seen y)))"
    and "\<And>zs. set (g zs) \<subseteq> set zs"
  shows "filter_mset (\<lambda>i. y ! i = l) (mset xs) = mset (g (label_group y l))"
proof -
  have "filter_mset (\<lambda>i. y ! i = l) (mset xs)
      = mset (filter (\<lambda>i. y ! i = l)
          (concat (map (\<lambda>l. g (label_group y l)) (labels_seen y))))"
    by (simp add: assms(1))
  then show ?thesis
    by (simp only: filter_label_concat [of g, OF assms(2)])
qed

text \<open>The stratified result when no conversion raises.\<close>

lemma split_stratified:
  assumes "\<forall>n. \<exists>k. ratio_size r n = Inr k"
  shows "fst (split E self y r True) =
           Inr (fst (shuffle_if E (flush_rng E self)
                  (concat (map (\<lambda>p. train_part r (snd p)) (dict_items E (group_indices y))))),
                fst (shuffle_if E
                  (snd (shuffle_if E (flush_rng E self)
                     (concat (map (\<lambda>p. train_part r (snd p)) (dict_items E (group_indices y))))))
                  (concat (map (\<lambda>p. test_part r (snd p)) (dict_items E (group_indices y))))))"
proof -
  have "\<forall>p \<in> set (dict_items E (group_indices y)). \<exists>k. ratio_size r (length (snd p)) = Inr k"
    using assms by blast
  from split_groups_ok [OF this, of "[]" "[]"] show ?thesis
    by (simp add: split_stratified_eq)
qed

text \<open>A part of a group, once the conversion is known.\<close>

lemma parts_of_size:
  assumes "ratio_size r (length g) = Inr k"
  shows "train_part r g = slice_to g k" and "test_part r g = slice_from g k"
    and "0 \<le> k \<Longrightarrow> train_part r g = take (nat k) g"
    and "0 \<le> k \<Longrightarrow> test_part r g = drop (nat k) g"
proof -
  show a: "train_part r g = slice_to g k" using assms by (simp add: train_part_def)
  show b: "test_part r g = slice_from g k" using assms by (simp add: test_part_def)
  assume "0 \<le> k"
  then have k: "k = int (nat k)" by simp
  show "train_part r g = take (nat k) g"
    unfolding a by (subst k) (simp add: slice_to_def slice_bound_def min_def)
  show "test_part r g = drop (nat k) g"
    unfolding b by (subst k) (simp only: slice_from_nonneg)
qed

lemma ex_groups:
  "labels_seen [0, 0, 0, 0, 1, 1, 1, 1 :: nat] = [0, 1]"
  "label_group [0, 0, 0, 0, 1, 1, 1, 1 :: nat] 0 = [0, 1, 2, 3]"
  "label_group [0, 0, 0, 0, 1, 1, 1, 1 :: nat] 1 = [4, 5, 6, 7]"
  by (simp_all add: labels_seen_def label_group_def eval_nat_numeral)

lemma ex_parts:
  "train_part d_half [0, 1, 2, 3] = [0, 1]"
  "train_part d_half [4, 5, 6, 7] = [4, 5]"
  "test_part d_half [0, 1, 2, 3] = [2, 3]"
  "test_part d_half [4, 5, 6, 7] = [6, 7]"
proof -
  have l: "length [0, 1, 2, 3 :: nat] = 4" "length [4, 5, 6, 7 :: nat] = 4" by simp_all
  have r: "ratio_size d_half (length [0, 1, 2, 3 :: nat]) = Inr 2"
          "ratio_size d_half (length [4, 5, 6, 7 :: nat]) = Inr 2"
    unfolding l by (rule ratio_size_half_4)+
  show "train_part d_half [0, 1, 2, 3] = [0, 1]"
    using parts_of_size(3) [OF r(1)] by (simp add: eval_nat_numeral)
  show "train_part d_half [4, 5, 6, 7] = [4, 5]"
    using parts_of_size(3) [OF r(2)] by (simp add: eval_nat_numeral)
  show "test_part d_half [0, 1, 2, 3] = [2, 3]"
    using parts_of_size(4) [OF r(1)] by (simp add: eval_nat_numeral)
  show "test_part d_half [4, 5, 6, 7] = [6, 7]"
    using parts_of_size(4) [OF r(2)] by (simp add: eval_nat_numeral)
qed

lemma ex_train:
  "concat (map (\<lambda>l. train_part d_half (label_group [0, 0, 0, 0, 1, 1, 1, 1 :: nat] l))
     (labels_seen [0, 0, 0, 0, 1, 1, 1, 1 :: nat])) = [0, 1, 4, 5]"
  by (simp only: ex_groups ex_parts list.map concat.simps append.simps)

lemma ex_test:
  "concat (map (\<lambda>l. test_part d_half (label_group [0, 0, 0, 0, 1, 1, 1, 1 :: nat] l))
     (labels_seen [0, 0, 0, 0, 1, 1, 1, 1 :: nat])) = [2, 3, 6, 7]"
  by (simp only: ex_groups ex_parts list.map concat.simps append.simps)

text \<open>A sequence of one repeated label has the one group of all positions.\<close>

lemma remdups_replicate_Suc: "remdups (replicate (Suc n) a) = [a]"
  by (induction n) auto

lemma group_indices_replicate:
  "0 < n \<Longrightarrow> group_indices (replicate n a) = [(a, [0..<n])]"
proof -
  assume n: "0 < n"
  have "filter (\<lambda>i. replicate n a ! i = a) [0..<n] = [0..<n]"
    by (rule filter_True) simp
  then have "label_group (replicate n a) a = [0..<n]" by (simp add: label_group_def)
  moreover have "labels_seen (replicate n a) = [a]"
  proof -
    obtain m where m: "n = Suc m" using n by (cases n) auto
    have "labels_seen (replicate n a) = rev (remdups (replicate (Suc m) a))"
      unfolding labels_seen_def m by (simp only: rev_replicate)
    then show ?thesis by (simp only: remdups_replicate_Suc) simp
  qed
  ultimately show ?thesis by (simp add: group_indices_eq)
qed

lemma split_one_label:
  assumes "0 < n" and "ratio_size r n = Inr k" and "0 \<le> k" and "nat k \<le> n"
  shows "fst (split test_runtime (init False None 0) (replicate n a) r True)
           = Inr ([0..<nat k], [nat k..<n])"
proof -
  have off: "\<not> shuffle (flush_rng test_runtime (init False None (0 :: nat)))"
    by (simp add: flush_rng_config init_def)
  have items: "dict_items test_runtime (group_indices (replicate n a)) = [(a, [0..<n])]"
    using assms(1) by (simp add: group_indices_replicate test_runtime_def)
  have k': "ratio_size r (length [0..<n]) = Inr k" using assms(2) by simp
  have "train_part r [0..<n] = [0..<nat k]"
    using parts_of_size(3) [OF k' assms(3)] assms(4) by (simp add: take_upt)
  moreover have "test_part r [0..<n] = [nat k..<n]"
    using parts_of_size(4) [OF k' assms(3)] by (simp add: drop_upt)
  ultimately show ?thesis
    using off k' by (simp add: split_stratified_eq items shuffle_if_off train_part_def test_part_def
        split: sum.splits)
qed

section \<open>Arguments outside the documented ranges\<close>

lemma xrange_empty: "n \<le> 0 \<Longrightarrow> xrange n = []"
  by (simp add: xrange_def)

lemma make_k_folds_degenerate:
  "fst (make_k_folds E self y 0 False) = ([], Some ZeroDivisionError)"
  "n \<le> 0 \<Longrightarrow> fst (make_k_folds E self y n True) = ([], None)"
  "n < 0 \<Longrightarrow> fst (make_k_folds E self y n False) = ([], None)"
  by (simp_all add: make_k_folds_def Let_def py_floordiv_def xrange_empty case_prod_beta)

lemma k_fold_pairs_single: "k_fold_pairs [f] (xrange 1) = ([], Some ValueError)"
  by (simp add: xrange_def upto.simps slice_to_def slice_from_def slice_bound_def
      np_concatenate_def)

lemma k_fold_split_cases:
  assumes "items_permuted E"
  shows "fst (k_fold_split E self y n stratify) =
           (if n = 0 \<and> \<not> stratify then ([], Some ZeroDivisionError)
            else if n \<le> 0 then ([], None)
            else if n = 1 then ([], Some ValueError)
            else (fst (fst (k_fold_split E self y n stratify)), None))"
proof -
  consider "n = 0" "\<not> stratify" | "n = 0" "stratify" | "n < 0" | "n = 1" | "1 < n" by linarith
  then show ?thesis
  proof cases
    case 1
    then show ?thesis by (simp add: k_fold_split_fst make_k_folds_degenerate)
  next
    case 2
    then show ?thesis by (simp add: k_fold_split_fst make_k_folds_degenerate xrange_empty)
  next
    case 3
    then show ?thesis
      by (cases stratify) (simp_all add: k_fold_split_fst make_k_folds_degenerate xrange_empty)
  next
    case 4
    obtain folds where f: "fst (make_k_folds E self y 1 stratify) = (folds, None)"
      and l: "length folds = nat 1"
      using make_k_folds_cover [OF assms, of 1 self y stratify] by auto
    obtain f' where "folds = [f']" using l by (cases folds) auto
    then show ?thesis using 4 f by (simp add: k_fold_split_fst k_fold_pairs_single)
  next
    case 5
    obtain folds where f: "fst (make_k_folds E self y n stratify) = (folds, None)"
      and l: "length folds = nat n"
      using make_k_folds_cover [OF assms, of n self y stratify] 5 by auto
    have "k_fold_pairs folds (xrange n) = (map (\<lambda>i. (all_but i folds, folds ! i)) [0..<nat n], None)"
      unfolding xrange_eq using k_fold_pairs_eq [of folds "[0..<nat n]"] l 5 by simp
    then show ?thesis using 5 f by (simp add: k_fold_split_fst)
  qed
qed

lemma make_k_folds_cases:
  assumes "items_permuted E"
  shows "fst (make_k_folds E self y n stratify) =
           (if n = 0 \<and> \<not> stratify then ([], Some ZeroDivisionError)
            else if n \<le> 0 then ([], None)
            else (fst (fst (make_k_folds E self y n stratify)), None))"
proof -
  consider "n = 0" "\<not> stratify" | "n = 0" "stratify" | "n < 0" | "1 \<le> n" by linarith
  then show ?thesis
  proof cases
    case 1
    then show ?thesis by (simp add: make_k_folds_degenerate)
  next
    case 2
    then show ?thesis by (simp add: make_k_folds_degenerate)
  next
    case 3
    then show ?thesis by (cases stratify) (simp_all add: make_k_folds_degenerate)
  next
    case 4
    then show ?thesis using make_k_folds_cover [OF assms 4, of self y stratify] by auto
  qed
qed

lemma upt_2: "[0..<2] = [0, 1 :: nat]" 
  by (simp add: eval_nat_numeral)

text \<open>\<open>split\<close> on no labels, and where the conversion decides on the plain path.\<close>

lemma split_empty:
  assumes "items_permuted E"
  shows "fst (split E self [] (Finite m e) stratify) = Inr ([], [])"
proof -
  have "\<exists>train test. fst (split E self [] (Finite m e) stratify) = Inr (train, test)"
  proof (cases stratify)
    case False
    then show ?thesis by (simp add: split_plain ratio_size_zero)
  next
    case True
    have "mset (dict_items E (group_indices [])) = {#}"
      using assms by (simp add: items_permuted_def group_indices_def)
    then have "dict_items E (group_indices []) = []" by simp
    then show ?thesis using True by (simp add: split_stratified_eq)
  qed
  then obtain train test where
    r: "fst (split E self [] (Finite m e) stratify) = Inr (train, test)" by blast
  from split_Inr_all_indices [OF assms r] have "train = []" "test = []" by simp_all
  then show ?thesis using r by simp
qed

lemma split_plain_Inl:
  "ratio_size r (length y) = Inl e \<Longrightarrow> fst (split E self y r False) = Inl e"
  by (simp add: split_plain)

lemma length_replicate_100: "length (replicate 100 (0 :: nat)) = 100"
  by simp


section \<open>The loader\<close>

lemma str_value_unicode_of: "str_value (PyUnicode (unicode_of s)) = PyStr s"
  by (simp add: str_value_def unicode_of_def comp_def)

lemma test_keys:
  "model_key \<noteq> unicode_of ''L1''" "unicode_of ''L1'' \<noteq> model_key"
  "model_key \<noteq> unicode_of ''_nnet''" "unicode_of ''_nnet'' \<noteq> model_key"
  "unicode_of ''_nnet'' \<noteq> unicode_of ''L1''" "unicode_of ''L1'' \<noteq> unicode_of ''_nnet''"
  by (simp_all add: model_key_def unicode_of_def)

lemma to_str_eq:
  "to_str v = (if ascii_value v then Inr (str_value v) else Inl UnicodeEncodeError)"
  by (cases v) (simp_all add: ascii_value_def str_value_def)

text \<open>The conversion raises on a non-ASCII value and converts the values otherwise.\<close>

lemma map_to_str_eq:
  "map_to_str ps = (if all_ascii ps then Inr (str_values ps) else Inl UnicodeEncodeError)"
proof (induction ps)
  case Nil
  show ?case by (simp add: all_ascii_def str_values_def)
next
  case (Cons p ps)
  obtain k v where p: "p = (k, v)" by (cases p)
  show ?case
    using Cons unfolding p
    by (simp add: to_str_eq all_ascii_def str_values_def del: to_str.simps)
qed

lemma str_values_map_of: "map_of (str_values ps) k = map_option str_value (map_of ps k)"
  by (induction ps) (simp_all add: str_values_def)

section \<open>The claims\<close>

text \<open>
  Claim C1.  For a non-empty label sequence of length \<open>n\<close> and \<open>0 < train_ratio < 1\<close>,
  \<open>split\<close> returns a pair \<open>(train, test)\<close> with \<open>len(train) + len(test) = n\<close>, whose
  index sets are disjoint and together are \<open>{0, ..., n - 1}\<close>.  The splitter \<open>self\<close>
  (and so its \<open>shuffle\<close> flag and seed) and \<open>stratify\<close> are arbitrary; the dict may
  iterate in any order.
\<close>

theorem split_partition:
  assumes "y \<noteq> []" and "float_less (Finite 0 0) train_ratio"
    and "float_less train_ratio (Finite 1 0)" and "items_permuted E"
  shows "\<exists>train test. fst (split E self y train_ratio stratify) = Inr (train, test) \<and>
           length train + length test = length y \<and>
           set train \<inter> set test = {} \<and>
           set train \<union> set test = {0..<length y}"
proof -
  have ok: "\<forall>n. \<exists>k. ratio_size train_ratio n = Inr k"
    using unit_ratio_size [OF assms(2,3)] by blast
  obtain train test where
    r: "fst (split E self y train_ratio stratify) = Inr (train, test)" and
    m: "mset train + mset test = mset [0..<length y]"
    using split_returns_all_indices [OF assms(4) ok] by blast
  from partition_of_mset [OF m] r show ?thesis by blast
qed

theorem split_partition_witness:
  "[0, 0, 0, 0, 1, 1, 1, 1 :: nat] \<noteq> [] \<and> float_less (Finite 0 0) d_half \<and>
   float_less d_half (Finite 1 0) \<and> items_permuted test_runtime \<and>
   (\<exists>train test.
      fst (split test_runtime (init True (Some 42) 0) [0, 0, 0, 0, 1, 1, 1, 1 :: nat] d_half True)
        = Inr (train, test) \<and>
      length train + length test = length [0, 0, 0, 0, 1, 1, 1, 1 :: nat] \<and>
      set train \<inter> set test = {} \<and>
      set train \<union> set test = {0..<length [0, 0, 0, 0, 1, 1, 1, 1 :: nat]})"
proof -
  have h1: "[0, 0, 0, 0, 1, 1, 1, 1 :: nat] \<noteq> []" by simp
  have h2: "float_less (Finite 0 0) d_half" by (simp add: d_half_def)
  have h3: "float_less d_half (Finite 1 0)" by (simp add: d_half_def)
  show ?thesis
    using h1 h2 h3 test_runtime_items
      split_partition [OF h1 h2 h3 test_runtime_items, of "init True (Some 42) 0" True]
    by blast
qed

text \<open>
  Claim C7.  For a non-empty label sequence of length \<open>n\<close> and \<open>n_folds > 1\<close>,
  \<open>make_k_folds\<close> without \<open>stratify\<close> permutes the index range once if \<open>shuffle\<close> is set
  and cuts it into \<open>n_folds\<close> contiguous slices of size \<open>floor(n / n_folds)\<close>, the final
  fold taking the remainder, so that its size is
  \<open>n - (n_folds - 1) * floor(n / n_folds)\<close>.  For \<open>labels = range(10)\<close>, \<open>n_folds = 5\<close>
  and \<open>shuffle\<close> unset the folds are \<open>[0,1], [2,3], [4,5], [6,7], [8,9]\<close>.
\<close>

theorem make_k_folds_contiguous:
  assumes "y \<noteq> []" and "1 < n_folds"
  shows "fst (make_k_folds E self y n_folds False) =
           (map (\<lambda>k. kth_slice (nat n_folds) k (permuted_range E self (length y)))
                [0..<nat n_folds], None) \<and>
         mset (permuted_range E self (length y)) = mset [0..<length y] \<and>
         (\<not> shuffle self \<longrightarrow> permuted_range E self (length y) = [0..<length y]) \<and>
         (\<forall>k < nat n_folds - 1.
            length (kth_slice (nat n_folds) k (permuted_range E self (length y)))
              = length y div nat n_folds) \<and>
         length (kth_slice (nat n_folds) (nat n_folds - 1) (permuted_range E self (length y)))
           = length y - (nat n_folds - 1) * (length y div nat n_folds) \<and>
         fst (make_k_folds E' (init False seed s0) [0..<10 :: nat] 5 False)
           = ([[0, 1], [2, 3], [4, 5], [6, 7], [8, 9]], None)"
proof -
  define K where "K = nat n_folds"
  define P where "P = permuted_range E self (length y)"
  have K: "1 < K" using assms(2) by (simp add: K_def)
  have len: "length P = length y" by (simp add: P_def permuted_range_length)
  have 1: "fst (make_k_folds E self y n_folds False) = (map (\<lambda>k. kth_slice K k P) [0..<K], None)"
    using make_k_folds_plain [of n_folds E self y] assms(2) by (simp add: K_def P_def)
  have 2: "mset P = mset [0..<length y]" by (simp add: P_def permuted_range_mset)
  have 3: "\<not> shuffle self \<longrightarrow> P = [0..<length y]" by (simp add: P_def permuted_range_def)
  have 4: "\<forall>k < K - 1. length (kth_slice K k P) = length y div K"
    using kth_slice_length [of _ K P] len by auto
  have "length y = K * (length y div K) + length y mod K" by simp
  also have "K * (length y div K) = (K - 1) * (length y div K) + length y div K"
    using K by (cases K) simp_all
  finally have "length y - (K - 1) * (length y div K) = length y div K + length y mod K"
    by simp
  then have 5: "length (kth_slice K (K - 1) P) = length y - (K - 1) * (length y div K)"
    using kth_slice_length [of "K - 1" K P] K len by simp
  have sh: "shuffle (flush_rng E' (init False seed s0)) = False"
    by (simp add: flush_rng_config init_def)
  have 6: "fst (make_k_folds E' (init False seed s0) [0..<10 :: nat] 5 False)
      = ([[0, 1], [2, 3], [4, 5], [6, 7], [8, 9]], None)"
    using make_k_folds_plain [of 5 E' "init False seed s0" "[0..<10 :: nat]"]
    by (simp add: permuted_range_def init_def kth_slice_def upt_5 upt_10)
  show ?thesis using 1 2 3 4 5 6 unfolding K_def P_def by blast
qed

theorem make_k_folds_contiguous_witness:
  "[0, 0, 0, 0, 0 :: nat] \<noteq> [] \<and> (1 :: int) < 3 \<and>
   fst (make_k_folds test_runtime (init False None 0) [0, 0, 0, 0, 0 :: nat] 3 False)
     = ([[0], [1], [2, 3, 4]], None)"
proof -
  have h1: "[0, 0, 0, 0, 0 :: nat] \<noteq> []" by simp
  have h2: "(1 :: int) < 3" by simp
  have "fst (make_k_folds test_runtime (init False None 0) [0, 0, 0, 0, 0 :: nat] 3 False) =
          (map (\<lambda>k. kth_slice (nat 3) k
             (permuted_range test_runtime (init False None 0) (length [0, 0, 0, 0, 0 :: nat])))
             [0..<nat 3], None)"
    by (rule make_k_folds_contiguous
          [OF h1 h2, of test_runtime "init False None 0" test_runtime None 0, THEN conjunct1])
  then show ?thesis
    by (simp add: permuted_range_def init_def kth_slice_def upt_3 upt_5)
qed

text \<open>
  Claim C3, as amended.  For a non-empty label sequence of length \<open>n\<close> and
  \<open>n_folds > 1\<close>, \<open>make_k_folds\<close> without \<open>stratify\<close> yields exactly \<open>n_folds\<close> groups; each
  of the first \<open>n_folds - 1\<close> has size \<open>floor(n / n_folds)\<close> and the last has size
  \<open>floor(n / n_folds) + n mod n_folds\<close>, so two sizes differ by at most
  \<open>n mod n_folds\<close>; every index of \<open>{0, ..., n - 1}\<close> is in exactly one group.
\<close>

theorem make_k_folds_plain_sizes:
  assumes "y \<noteq> []" and "1 < n_folds"
  shows "\<exists>folds. fst (make_k_folds E self y n_folds False) = (folds, None) \<and>
           length folds = nat n_folds \<and>
           (\<forall>k < nat n_folds - 1. length (folds ! k) = length y div nat n_folds) \<and>
           length (folds ! (nat n_folds - 1))
             = length y div nat n_folds + length y mod nat n_folds \<and>
           (\<forall>i < nat n_folds. \<forall>j < nat n_folds.
              length (folds ! i) \<le> length (folds ! j) + length y mod nat n_folds) \<and>
           distinct (concat folds) \<and> set (concat folds) = {0..<length y}"
proof -
  define K where "K = nat n_folds"
  define P where "P = permuted_range E self (length y)"
  define folds where "folds = map (\<lambda>k. kth_slice K k P) [0..<K]"
  have K: "1 < K" using assms(2) by (simp add: K_def)
  have len: "length P = length y" by (simp add: P_def permuted_range_length)
  have 1: "fst (make_k_folds E self y n_folds False) = (folds, None)"
    using make_k_folds_plain [of n_folds E self y] assms(2) by (simp add: K_def P_def folds_def)
  have 2: "length folds = K" by (simp add: folds_def)
  have sz: "\<And>k. k < K \<Longrightarrow> length (folds ! k) =
      (if k < K - 1 then length y div K else length y div K + length y mod K)"
    using kth_slice_length [of _ K P] len by (simp add: folds_def)
  have 3: "\<forall>k < K - 1. length (folds ! k) = length y div K" using sz by simp
  have 4: "length (folds ! (K - 1)) = length y div K + length y mod K"
    using sz [of "K - 1"] K by simp
  have 5: "\<forall>i < K. \<forall>j < K. length (folds ! i) \<le> length (folds ! j) + length y mod K"
    using sz by simp
  have "concat folds = P" using kth_slices_concat [of K P] K by (simp add: folds_def)
  then have "mset (concat folds) = mset [0..<length y]"
    by (simp add: P_def permuted_range_mset)
  then have 6: "distinct (concat folds) \<and> set (concat folds) = {0..<length y}"
    by (rule distinct_set_of_mset)
  show ?thesis using 1 2 3 4 5 6 unfolding K_def by blast
qed

theorem make_k_folds_plain_sizes_witness:
  "[0, 0, 0, 0, 0 :: nat] \<noteq> [] \<and> (1 :: int) < 3 \<and>
   (\<exists>folds. fst (make_k_folds test_runtime (init True (Some 42) 0) [0, 0, 0, 0, 0 :: nat] 3 False)
              = (folds, None) \<and>
      length folds = nat 3 \<and>
      (\<forall>k < nat 3 - 1. length (folds ! k) = length [0, 0, 0, 0, 0 :: nat] div nat 3) \<and>
      length (folds ! (nat 3 - 1))
        = length [0, 0, 0, 0, 0 :: nat] div nat 3 + length [0, 0, 0, 0, 0 :: nat] mod nat 3 \<and>
      (\<forall>i < nat 3. \<forall>j < nat 3.
         length (folds ! i) \<le> length (folds ! j) + length [0, 0, 0, 0, 0 :: nat] mod nat 3) \<and>
      distinct (concat folds) \<and> set (concat folds) = {0..<length [0, 0, 0, 0, 0 :: nat]})"
proof -
  have h1: "[0, 0, 0, 0, 0 :: nat] \<noteq> []" by simp
  have h2: "(1 :: int) < 3" by simp
  show ?thesis
    using h1 h2 make_k_folds_plain_sizes [OF h1 h2, of test_runtime "init True (Some 42) 0"]
    by blast
qed

text \<open>
  Claim C3 as stated fails: five labels in three folds give sizes 1, 1 and 3, and
  3 exceeds 1 by two.
\<close>

theorem make_k_folds_sizes_counterexample:
  "fst (make_k_folds test_runtime (init False None 0) [0, 0, 0, 0, 0 :: nat] 3 False)
     = ([[0], [1], [2, 3, 4]], None) \<and>
   length [2, 3, 4 :: nat] = length [0 :: nat] + 2"
proof -
  have "fst (make_k_folds test_runtime (init False None 0) [0, 0, 0, 0, 0 :: nat] 3 False) =
          (map (\<lambda>k. kth_slice (nat 3) k
             (permuted_range test_runtime (init False None 0) (length [0, 0, 0, 0, 0 :: nat])))
             [0..<nat 3], None)"
    by (rule make_k_folds_plain) simp
  then show ?thesis
    by (simp add: permuted_range_def init_def kth_slice_def upt_3 upt_5)
qed

text \<open>
  Claim C8.  For a non-empty label sequence of length \<open>n\<close> and \<open>n_folds > 1\<close>, the
  \<open>n_folds\<close> groups that \<open>make_k_folds\<close> yields with \<open>stratify\<close> partition
  \<open>{0, ..., n - 1}\<close>.  What fold \<open>k\<close> holds of the group of a label is slice \<open>k\<close> of
  that group: for the first \<open>n_folds - 1\<close> folds a slice of size \<open>floor(m / n_folds)\<close>,
  for the last fold all the remaining indices of the group; the slices of a group
  together are the group, so no index is dropped.
\<close>

theorem make_k_folds_stratified_partition:
  assumes "y \<noteq> []" and "1 < n_folds" and "items_permuted E"
  shows "\<exists>folds. fst (make_k_folds E self y n_folds True) = (folds, None) \<and>
           length folds = nat n_folds \<and>
           distinct (concat folds) \<and> set (concat folds) = {0..<length y} \<and>
           (\<forall>l. \<forall>k < nat n_folds.
              filter_mset (\<lambda>i. y ! i = l) (mset (folds ! k))
                = mset (kth_slice (nat n_folds) k (label_group y l))) \<and>
           (\<forall>l. \<forall>k < nat n_folds - 1.
              length (kth_slice (nat n_folds) k (label_group y l))
                = length (label_group y l) div nat n_folds) \<and>
           (\<forall>l. kth_slice (nat n_folds) (nat n_folds - 1) (label_group y l)
                = drop ((nat n_folds - 1) * (length (label_group y l) div nat n_folds))
                    (label_group y l)) \<and>
           (\<forall>l. concat (map (\<lambda>k. kth_slice (nat n_folds) k (label_group y l)) [0..<nat n_folds])
                = label_group y l)"
proof -
  define K where "K = nat n_folds"
  have K: "1 < K" using assms(2) by (simp add: K_def)
  obtain folds where
    1: "fst (make_k_folds E self y n_folds True) = (folds, None)" and
    2: "length folds = K" and
    3: "\<forall>k < K. mset (folds ! k) =
          mset (concat (map (\<lambda>l. kth_slice K k (label_group y l)) (labels_seen y)))" and
    4: "mset (concat folds) = mset [0..<length y]"
    using make_k_folds_stratified [OF assms(3), of n_folds self y] assms(2)
    unfolding K_def by auto
  have 5: "distinct (concat folds) \<and> set (concat folds) = {0..<length y}"
    using 4 by (rule distinct_set_of_mset)
  have 6: "\<forall>l. \<forall>k < K. filter_mset (\<lambda>i. y ! i = l) (mset (folds ! k))
                = mset (kth_slice K k (label_group y l))"
    using 3 fold_label_part [of _ K _ y] by blast
  have 7: "\<forall>l. \<forall>k < K - 1. length (kth_slice K k (label_group y l)) = length (label_group y l) div K"
  proof (intro allI impI)
    fix l k assume k: "k < K - 1"
    then have "k < K" by simp
    from kth_slice_length [OF this, of "label_group y l"] k
    show "length (kth_slice K k (label_group y l)) = length (label_group y l) div K" by simp
  qed
  have 8: "\<forall>l. kth_slice K (K - 1) (label_group y l)
                = drop ((K - 1) * (length (label_group y l) div K)) (label_group y l)"
    by (simp add: kth_slice_def)
  have 9: "\<forall>l. concat (map (\<lambda>k. kth_slice K k (label_group y l)) [0..<K]) = label_group y l"
  proof -
    have "0 < K" using K by simp
    then show ?thesis by (simp add: kth_slices_concat)
  qed
  show ?thesis using 1 2 5 6 7 8 9 unfolding K_def by blast
qed

theorem make_k_folds_stratified_partition_witness:
  "[0, 1, 0, 1, 0, 1, 0, 2 :: nat] \<noteq> [] \<and> (1 :: int) < 3 \<and> items_permuted test_runtime \<and>
   (\<exists>folds.
      fst (make_k_folds test_runtime (init True None 0) [0, 1, 0, 1, 0, 1, 0, 2 :: nat] 3 True)
        = (folds, None) \<and>
      length folds = nat 3 \<and>
      distinct (concat folds) \<and>
      set (concat folds) = {0..<length [0, 1, 0, 1, 0, 1, 0, 2 :: nat]})"
proof -
  have h1: "[0, 1, 0, 1, 0, 1, 0, 2 :: nat] \<noteq> []" by simp
  have h2: "(1 :: int) < 3" by simp
  show ?thesis
    using h1 h2 test_runtime_items
      make_k_folds_stratified_partition [OF h1 h2 test_runtime_items, of "init True None 0"]
    by blast
qed

text \<open>
  Claim C10.  When the group of a label has size \<open>m\<close> with \<open>0 < m < n_folds\<close>,
  \<open>make_k_folds\<close> with \<open>stratify\<close> computes the slice size \<open>0\<close> for it; the first
  \<open>n_folds - 1\<close> folds hold no index of the group, the final fold holds all \<open>m\<close> of
  them, and nothing is raised.
\<close>

theorem make_k_folds_small_group:
  assumes "items_permuted E" and "l \<in> set y" and "int (length (label_group y l)) < n_folds"
  shows "\<exists>folds. fst (make_k_folds E self y n_folds True) = (folds, None) \<and>
           length folds = nat n_folds \<and>
           0 < length (label_group y l) \<and>
           int (length (label_group y l)) div n_folds = 0 \<and>
           (\<forall>k < nat n_folds - 1. filter_mset (\<lambda>i. y ! i = l) (mset (folds ! k)) = {#}) \<and>
           filter_mset (\<lambda>i. y ! i = l) (mset (folds ! (nat n_folds - 1)))
             = mset (label_group y l)"
proof -
  define K where "K = nat n_folds"
  have pos: "0 < length (label_group y l)" using label_group_nonempty [OF assms(2)] by simp
  have small: "length (label_group y l) < K" using assms(3) by (simp add: K_def)
  then have K: "1 < K" using pos by linarith
  have n: "1 \<le> n_folds" using K by (simp add: K_def)
  obtain folds where
    1: "fst (make_k_folds E self y n_folds True) = (folds, None)" and
    2: "length folds = K" and
    3: "\<forall>k < K. mset (folds ! k) =
          mset (concat (map (\<lambda>l. kth_slice K k (label_group y l)) (labels_seen y)))"
    using make_k_folds_stratified [OF assms(1) n, of self y] unfolding K_def by auto
  have part: "\<forall>k < K. filter_mset (\<lambda>i. y ! i = l) (mset (folds ! k))
                = mset (kth_slice K k (label_group y l))"
    using 3 fold_label_part [of _ K _ y] by blast
  have 4: "int (length (label_group y l)) div n_folds = 0" using assms(3) by simp
  have 5: "\<forall>k < K - 1. filter_mset (\<lambda>i. y ! i = l) (mset (folds ! k)) = {#}"
    using part kth_slice_small [OF small] by simp
  have 6: "filter_mset (\<lambda>i. y ! i = l) (mset (folds ! (K - 1))) = mset (label_group y l)"
    using part kth_slice_small [OF small, of "K - 1"] K by simp
  show ?thesis using 1 2 pos 4 5 6 unfolding K_def by blast
qed

theorem make_k_folds_small_group_witness:
  "items_permuted test_runtime \<and> (2 :: nat) \<in> set [0, 1, 0, 1, 0, 1, 0, 2] \<and>
   int (length (label_group [0, 1, 0, 1, 0, 1, 0, 2 :: nat] 2)) < 3 \<and>
   (\<exists>folds.
      fst (make_k_folds test_runtime (init True None 0) [0, 1, 0, 1, 0, 1, 0, 2 :: nat] 3 True)
        = (folds, None) \<and>
      length folds = nat 3 \<and>
      (\<forall>k < nat 3 - 1.
         filter_mset (\<lambda>i. [0, 1, 0, 1, 0, 1, 0, 2 :: nat] ! i = 2) (mset (folds ! k)) = {#}) \<and>
      filter_mset (\<lambda>i. [0, 1, 0, 1, 0, 1, 0, 2 :: nat] ! i = 2) (mset (folds ! (nat 3 - 1)))
        = mset (label_group [0, 1, 0, 1, 0, 1, 0, 2 :: nat] 2))"
proof -
  have h2: "(2 :: nat) \<in> set [0, 1, 0, 1, 0, 1, 0, 2]" by simp
  have h3: "int (length (label_group [0, 1, 0, 1, 0, 1, 0, 2 :: nat] 2)) < 3"
    by (simp add: label_group_def eval_nat_numeral)
  show ?thesis
    using h2 h3 test_runtime_items
      make_k_folds_small_group [OF test_runtime_items h2 h3, of "init True None 0"]
    by blast
qed

text \<open>
  Claim C5.  For a non-empty label sequence of length \<open>n\<close> and \<open>n_folds > 1\<close>,
  \<open>k_fold_split\<close> yields exactly \<open>n_folds\<close> pairs.  With \<open>fold_0, ..., fold_{n_folds-1}\<close>
  the groups \<open>make_k_folds\<close> produces on the same splitter, pair \<open>i\<close> is (all folds but
  \<open>fold_i\<close> concatenated in order, \<open>fold_i\<close>); the generator is left as \<open>make_k_folds\<close>
  leaves it; in every pair train and test are disjoint and together are
  \<open>{0, ..., n - 1}\<close>.
\<close>

theorem k_fold_split_pairs:
  assumes "y \<noteq> []" and "1 < n_folds" and "items_permuted E"
  shows "\<exists>folds. fst (make_k_folds E self y n_folds stratify) = (folds, None) \<and>
           length folds = nat n_folds \<and>
           fst (k_fold_split E self y n_folds stratify)
             = (map (\<lambda>i. (all_but i folds, folds ! i)) [0..<nat n_folds], None) \<and>
           length (fst (fst (k_fold_split E self y n_folds stratify))) = nat n_folds \<and>
           snd (k_fold_split E self y n_folds stratify) = snd (make_k_folds E self y n_folds stratify) \<and>
           (\<forall>i < nat n_folds.
              set (all_but i folds) \<inter> set (folds ! i) = {} \<and>
              set (all_but i folds) \<union> set (folds ! i) = {0..<length y})"
proof -
  define K where "K = nat n_folds"
  have n: "1 \<le> n_folds" using assms(2) by simp
  obtain folds where
    1: "fst (make_k_folds E self y n_folds stratify) = (folds, None)" and
    2: "length folds = K" and
    3: "mset (concat folds) = mset [0..<length y]"
    using make_k_folds_cover [OF assms(3) n, of self y stratify] unfolding K_def by auto
  have K: "2 \<le> length folds" using assms(2) 2 by (simp add: K_def)
  have pairs: "k_fold_pairs folds (xrange n_folds) = (map (\<lambda>i. (all_but i folds, folds ! i)) [0..<K], None)"
    unfolding xrange_eq K_def [symmetric] using k_fold_pairs_eq [OF K, of "[0..<K]"] 2 by simp
  obtain s where mk: "make_k_folds E self y n_folds stratify = ((folds, None), s)"
    using 1 by (cases "make_k_folds E self y n_folds stratify") auto
  have 4: "fst (k_fold_split E self y n_folds stratify) = (map (\<lambda>i. (all_but i folds, folds ! i)) [0..<K], None)"
    by (simp add: k_fold_split_eq mk pairs)
  have 5: "snd (k_fold_split E self y n_folds stratify) = snd (make_k_folds E self y n_folds stratify)"
    by (simp add: k_fold_split_eq mk)
  have 6: "\<forall>i < K. set (all_but i folds) \<inter> set (folds ! i) = {} \<and>
              set (all_but i folds) \<union> set (folds ! i) = {0..<length y}"
  proof (intro allI impI)
    fix i assume "i < K"
    then have "mset (all_but i folds) + mset (folds ! i) = mset [0..<length y]"
      using all_but_mset [of i folds] 2 3 by simp
    from partition_of_mset [OF this]
    show "set (all_but i folds) \<inter> set (folds ! i) = {} \<and>
              set (all_but i folds) \<union> set (folds ! i) = {0..<length y}" by blast
  qed
  have 7: "length (fst (fst (k_fold_split E self y n_folds stratify))) = K" by (simp add: 4)
  show ?thesis using 1 2 4 5 6 7 unfolding K_def by blast
qed

theorem k_fold_split_pairs_witness:
  "[0, 1, 0, 1, 0 :: nat] \<noteq> [] \<and> (1 :: int) < 3 \<and> items_permuted test_runtime \<and>
   fst (k_fold_split test_runtime (init False None 0) [0, 1, 0, 1, 0 :: nat] 3 False)
     = ([([1, 2, 3, 4], [0]), ([0, 2, 3, 4], [1]), ([0, 1], [2, 3, 4])], None)"
proof -
  have h1: "[0, 1, 0, 1, 0 :: nat] \<noteq> []" by simp
  have h2: "(1 :: int) < 3" by simp
  have mk: "fst (make_k_folds test_runtime (init False None 0) [0, 1, 0, 1, 0 :: nat] 3 False)
      = ([[0], [1], [2, 3, 4]], None)"
    using make_k_folds_plain [of 3 test_runtime "init False None 0" "[0, 1, 0, 1, 0 :: nat]"]
    by (simp add: permuted_range_def init_def kth_slice_def upt_3 upt_5)
  obtain folds where
    f: "fst (make_k_folds test_runtime (init False None 0) [0, 1, 0, 1, 0 :: nat] 3 False)
          = (folds, None)" and
    p: "fst (k_fold_split test_runtime (init False None 0) [0, 1, 0, 1, 0 :: nat] 3 False)
          = (map (\<lambda>i. (all_but i folds, folds ! i)) [0..<nat 3], None)"
    using k_fold_split_pairs [OF h1 h2 test_runtime_items, of "init False None 0" False]
    by blast
  have "folds = [[0], [1], [2, 3, 4]]" using f mk by simp
  then show ?thesis using h1 h2 test_runtime_items p
    by (simp add: all_but_def upt_3)
qed



text \<open>
  Claim C6, as amended.  For a non-empty label sequence and \<open>0 < train_ratio < 1\<close>,
  \<open>split\<close> with \<open>stratify\<close> takes of each label group of size \<open>m\<close> the first
  \<open>int(train_ratio * m)\<close> indices, in ascending order, for train and the rest for
  test, the product being the double product (rounded to nearest, ties to even), so
  that the count is not always the floor of the exact product.  It
  concatenates these over the groups (in the dict's order); with \<open>shuffle\<close> the two
  concatenations are shuffled one after the other.  So what train holds of a label is
  the train part of its group, and likewise for test.  For
  \<open>labels = [0,0,0,0,1,1,1,1]\<close>, \<open>train_ratio = 0.5\<close> and \<open>shuffle\<close> unset, train is the
  index set \<open>{0,1,4,5}\<close> and test is \<open>{2,3,6,7}\<close>.
\<close>

theorem split_stratified_groups:
  assumes "y \<noteq> []" and "float_less (Finite 0 0) train_ratio"
    and "float_less train_ratio (Finite 1 0)" and "items_permuted E"
  shows "\<exists>train test tr te.
           fst (split E self y train_ratio True) = Inr (train, test) \<and>
           tr = concat (map (\<lambda>p. train_part train_ratio (snd p)) (dict_items E (group_indices y))) \<and>
           te = concat (map (\<lambda>p. test_part train_ratio (snd p)) (dict_items E (group_indices y))) \<and>
           mset (dict_items E (group_indices y))
             = mset (map (\<lambda>l. (l, label_group y l)) (labels_seen y)) \<and>
           (\<not> shuffle self \<longrightarrow> train = tr \<and> test = te) \<and>
           (shuffle self \<longrightarrow>
              train = fst (rng_shuffle E (rng (flush_rng E self)) tr) \<and>
              test = fst (rng_shuffle E (snd (rng_shuffle E (rng (flush_rng E self)) tr)) te)) \<and>
           mset train = mset tr \<and> mset test = mset te \<and>
           (\<forall>l. filter_mset (\<lambda>i. y ! i = l) (mset train)
                  = mset (train_part train_ratio (label_group y l))) \<and>
           (\<forall>l. filter_mset (\<lambda>i. y ! i = l) (mset test)
                  = mset (test_part train_ratio (label_group y l))) \<and>
           (\<forall>g. \<exists>k. ratio_size train_ratio (length g) = Inr k \<and>
                  train_part train_ratio g = slice_to g k \<and>
                  test_part train_ratio g = slice_from g k \<and>
                  (length g < 2 ^ 63 \<longrightarrow>
                     0 \<le> k \<and> train_part train_ratio g = take (nat k) g \<and>
                     test_part train_ratio g = drop (nat k) g)) \<and>
           (items_permuted E' \<longrightarrow>
              (\<exists>train' test'.
                 fst (split E' (init False seed s0) [0, 0, 0, 0, 1, 1, 1, 1 :: nat] d_half True)
                   = Inr (train', test') \<and>
                 set train' = {0, 1, 4, 5} \<and> set test' = {2, 3, 6, 7}))"
proof -
  define tr where
    "tr = concat (map (\<lambda>p. train_part train_ratio (snd p)) (dict_items E (group_indices y)))"
  define te where
    "te = concat (map (\<lambda>p. test_part train_ratio (snd p)) (dict_items E (group_indices y)))"
  define train where "train = fst (shuffle_if E (flush_rng E self) tr)"
  define test where "test = fst (shuffle_if E (snd (shuffle_if E (flush_rng E self) tr)) te)"
  have ok: "\<forall>n. \<exists>k. ratio_size train_ratio n = Inr k"
    using unit_ratio_size [OF assms(2,3)] by blast
  have 1: "fst (split E self y train_ratio True) = Inr (train, test)"
    by (simp add: split_stratified [OF ok] train_def test_def tr_def te_def)
  have 2: "mset (dict_items E (group_indices y))
             = mset (map (\<lambda>l. (l, label_group y l)) (labels_seen y))"
    using assms(4) by (simp add: items_permuted_def group_indices_eq)
  have 3: "\<not> shuffle self \<longrightarrow> train = tr \<and> test = te"
    by (simp add: train_def test_def shuffle_if_def flush_rng_config)
  have 4: "shuffle self \<longrightarrow>
              train = fst (rng_shuffle E (rng (flush_rng E self)) tr) \<and>
              test = fst (rng_shuffle E (snd (rng_shuffle E (rng (flush_rng E self)) tr)) te)"
    by (simp add: train_def test_def shuffle_if_def self_shuffle_def flush_rng_config
        case_prod_beta)
  have 5: "mset train = mset tr" by (simp add: train_def shuffle_if_mset)
  have 6: "mset test = mset te" by (simp add: test_def shuffle_if_mset)
  have "mset train = mset (concat (map (\<lambda>l. train_part train_ratio (label_group y l))
                                      (labels_seen y)))"
    unfolding 5 tr_def by (rule groups_concat_mset [OF assms(4)])
  then have 7: "\<forall>l. filter_mset (\<lambda>i. y ! i = l) (mset train)
                  = mset (train_part train_ratio (label_group y l))"
    using label_part [of train "train_part train_ratio" y, OF _ train_part_subset] by blast
  have "mset test = mset (concat (map (\<lambda>l. test_part train_ratio (label_group y l))
                                      (labels_seen y)))"
    unfolding 6 te_def by (rule groups_concat_mset [OF assms(4)])
  then have 8: "\<forall>l. filter_mset (\<lambda>i. y ! i = l) (mset test)
                  = mset (test_part train_ratio (label_group y l))"
    using label_part [of test "test_part train_ratio" y, OF _ test_part_subset] by blast
  have 9: "\<forall>g. \<exists>k. ratio_size train_ratio (length g) = Inr k \<and>
                  train_part train_ratio g = slice_to g k \<and>
                  test_part train_ratio g = slice_from g k \<and>
                  (length g < 2 ^ 63 \<longrightarrow>
                     0 \<le> k \<and> train_part train_ratio g = take (nat k) g \<and>
                     test_part train_ratio g = drop (nat k) g)"
  proof
    fix g :: "nat list"
    obtain k where k: "ratio_size train_ratio (length g) = Inr k"
      and pos: "length g < 2 ^ 63 \<longrightarrow> 0 \<le> k"
      using unit_ratio_size [OF assms(2,3), of "length g"] by blast
    show "\<exists>k. ratio_size train_ratio (length g) = Inr k \<and>
                  train_part train_ratio g = slice_to g k \<and>
                  test_part train_ratio g = slice_from g k \<and>
                  (length g < 2 ^ 63 \<longrightarrow>
                     0 \<le> k \<and> train_part train_ratio g = take (nat k) g \<and>
                     test_part train_ratio g = drop (nat k) g)"
      using k pos parts_of_size [OF k] by blast
  qed
  have 10: "items_permuted E' \<longrightarrow>
              (\<exists>train' test'.
                 fst (split E' (init False seed s0) [0, 0, 0, 0, 1, 1, 1, 1 :: nat] d_half True)
                   = Inr (train', test') \<and>
                 set train' = {0, 1, 4, 5} \<and> set test' = {2, 3, 6, 7})"
  proof
    assume E': "items_permuted E'"
    let ?y = "[0, 0, 0, 0, 1, 1, 1, 1 :: nat]"
    let ?d = "dict_items E' (group_indices ?y)"
    let ?a = "concat (map (\<lambda>p. train_part d_half (snd p)) ?d)"
    let ?b = "concat (map (\<lambda>p. test_part d_half (snd p)) ?d)"
    have h2: "float_less (Finite 0 0) d_half" by (simp add: d_half_def)
    have h3: "float_less d_half (Finite 1 0)" by (simp add: d_half_def)
    have okh: "\<forall>n. \<exists>k. ratio_size d_half n = Inr k"
      using unit_ratio_size [OF h2 h3] by blast
    have off: "\<not> shuffle (flush_rng E' (init False seed s0))"
      by (simp add: flush_rng_config init_def)
    have sp: "fst (split E' (init False seed s0) ?y d_half True) = Inr (?a, ?b)"
      using split_stratified [OF okh, of E' "init False seed s0" ?y] off
      by (simp add: shuffle_if_off)
    have "mset ?a = mset [0, 1, 4, 5]"
      using groups_concat_mset [OF E', of "train_part d_half" ?y]
      by (simp only: ex_train)
    then have "set ?a = set [0, 1, 4, 5]" by (rule mset_eq_setD)
    then have a: "set ?a = {0, 1, 4, 5}" by simp
    have "mset ?b = mset [2, 3, 6, 7]"
      using groups_concat_mset [OF E', of "test_part d_half" ?y]
      by (simp only: ex_test)
    then have "set ?b = set [2, 3, 6, 7]" by (rule mset_eq_setD)
    then have b: "set ?b = {2, 3, 6, 7}" by simp
    show "\<exists>train' test'.
                 fst (split E' (init False seed s0) ?y d_half True) = Inr (train', test') \<and>
                 set train' = {0, 1, 4, 5} \<and> set test' = {2, 3, 6, 7}"
      using sp a b by blast
  qed
  show ?thesis
    apply (rule exI [of _ train], rule exI [of _ test], rule exI [of _ tr], rule exI [of _ te])
    apply (intro conjI)
    apply (rule 1, rule tr_def, rule te_def, rule 2)
    apply (rule 3, rule 4, rule 5, rule 6, rule 7, rule 8, rule 9, rule 10)
    done
qed

theorem split_stratified_groups_witness:
  "[0, 0, 0, 0, 1, 1, 1, 1 :: nat] \<noteq> [] \<and> float_less (Finite 0 0) d_half \<and>
   float_less d_half (Finite 1 0) \<and> items_permuted test_runtime \<and>
   (\<exists>train test.
      fst (split test_runtime (init False None 0) [0, 0, 0, 0, 1, 1, 1, 1 :: nat] d_half True)
        = Inr (train, test) \<and>
      set train = {0, 1, 4, 5} \<and> set test = {2, 3, 6, 7})"
proof -
  have h1: "[0, 0, 0, 0, 1, 1, 1, 1 :: nat] \<noteq> []" by simp
  have h2: "float_less (Finite 0 0) d_half" by (simp add: d_half_def)
  have h3: "float_less d_half (Finite 1 0)" by (simp add: d_half_def)
  show ?thesis
    using h1 h2 h3 test_runtime_items
      split_stratified_groups [OF h1 h2 h3 test_runtime_items,
        of "init False None 0" test_runtime None 0]
    by blast
qed

text \<open>
  Claim C6 as stated fails, whichever number \<open>train_ratio\<close> is read as.  The float
  \<open>0.7\<close> on a group of ten: the floor of the exact product of the double is 6, and
  train gets 7 indices (the double product is a tie that rounds to 7).  The float
  \<open>0.29\<close> on a group of a hundred: the floor of \<open>0.29 * 100\<close> is 29, and train gets 28
  indices.
\<close>

theorem split_stratified_counterexample:
  "is_double d_0_7 \<and> float_less (Finite 0 0) d_0_7 \<and> float_less d_0_7 (Finite 1 0) \<and>
   \<lfloor>dval d_0_7 * 10\<rfloor> = 6 \<and>
   fst (split test_runtime (init False None 0) (replicate 10 (0 :: nat)) d_0_7 True)
     = Inr ([0..<7], [7..<10]) \<and>
   is_double d_0_29 \<and> float_less (Finite 0 0) d_0_29 \<and> float_less d_0_29 (Finite 1 0) \<and>
   \<bar>dval d_0_29 - 29 / 100\<bar> < 1 / 2 ^ 55 \<and> \<lfloor>29 / 100 * (100 :: real)\<rfloor> = 29 \<and>
   fst (split test_runtime (init False None 0) (replicate 100 (0 :: nat)) d_0_29 True)
     = Inr ([0..<28], [28..<100])"
proof -
  have a: "fst (split test_runtime (init False None 0) (replicate 10 (0 :: nat)) d_0_7 True)
     = Inr ([0..<7], [7..<10])"
    using split_one_label [of 10 d_0_7 7 "0 :: nat"] ratio_size_0_7 by simp
  have b: "fst (split test_runtime (init False None 0) (replicate 100 (0 :: nat)) d_0_29 True)
     = Inr ([0..<28], [28..<100])"
    using split_one_label [of 100 d_0_29 28 "0 :: nat"] ratio_size_0_29 by simp
  have c: "float_less (Finite 0 0) d_0_7 \<and> float_less d_0_7 (Finite 1 0)"
    by (simp add: d_0_7_def)
  have d: "float_less (Finite 0 0) d_0_29 \<and> float_less d_0_29 (Finite 1 0)"
    by (simp add: d_0_29_def)
  have e: "\<lfloor>29 / 100 * (100 :: real)\<rfloor> = 29" by simp
  show ?thesis using a b c d e doubles exact_0_7 near_0_29 by simp
qed

text \<open>
  Claim C2, as amended.  No operation validates its arguments, and there is no
  InvalidArgument error.  \<open>split\<close>, whatever the labels and the float \<open>train_ratio\<close>
  are, either returns a pair that partitions \<open>{0, ..., n - 1}\<close> or raises
  \<open>OverflowError\<close> or \<open>ValueError\<close>, returning nothing; without \<open>stratify\<close> it
  raises when \<open>int(train_ratio * len(labels))\<close> does (a product that is infinite or
  not a number); it returns for every finite \<open>train_ratio\<close> of magnitude at most \<open>2 ^ 900\<close>, those
  outside \<open>(0, 1)\<close> included, and for empty labels with any finite \<open>train_ratio\<close>
  (the pair of two empty lists).  \<open>make_k_folds\<close> for \<open>n_folds \<ge> 1\<close> yields
  \<open>n_folds\<close> folds that hold every index once (a single fold of all indices for
  \<open>n_folds = 1\<close>); for \<open>n_folds \<le> 0\<close> it yields nothing and raises nothing, except
  that \<open>n_folds = 0\<close> without \<open>stratify\<close> raises \<open>ZeroDivisionError\<close>.
  \<open>k_fold_split\<close> does for \<open>n_folds \<le> 0\<close> what \<open>make_k_folds\<close> does, and for
  \<open>n_folds = 1\<close> raises \<open>ValueError\<close> (nothing to concatenate).  An operation that
  raises has yielded nothing before.
\<close>

theorem no_argument_validation:
  assumes "items_permuted E"
  shows "(\<forall>e. fst (split E self y train_ratio stratify) = Inl e \<longrightarrow>
            e = OverflowError \<or> e = ValueError) \<and>
         (\<forall>train test. fst (split E self y train_ratio stratify) = Inr (train, test) \<longrightarrow>
            length train + length test = length y \<and>
            set train \<inter> set test = {} \<and>
            set train \<union> set test = {0..<length y}) \<and>
         (\<forall>e. \<not> stratify \<and> ratio_size train_ratio (length y) = Inl e \<longrightarrow>
            fst (split E self y train_ratio stratify) = Inl e) \<and>
         (\<forall>m e. train_ratio = Finite m e \<and> \<bar>real_of_int m * 2 powi e\<bar> \<le> 2 ^ 900 \<longrightarrow>
            (\<exists>train test. fst (split E self y train_ratio stratify) = Inr (train, test))) \<and>
         (\<forall>m e. train_ratio = Finite m e \<and> y = [] \<longrightarrow>
            fst (split E self y train_ratio stratify) = Inr ([], [])) \<and>
         fst (make_k_folds E self y n_folds stratify) =
           (if n_folds = 0 \<and> \<not> stratify then ([], Some ZeroDivisionError)
            else if n_folds \<le> 0 then ([], None)
            else (fst (fst (make_k_folds E self y n_folds stratify)), None)) \<and>
         (0 < n_folds \<longrightarrow>
            length (fst (fst (make_k_folds E self y n_folds stratify))) = nat n_folds \<and>
            mset (concat (fst (fst (make_k_folds E self y n_folds stratify))))
              = mset [0..<length y]) \<and>
         fst (k_fold_split E self y n_folds stratify) =
           (if n_folds = 0 \<and> \<not> stratify then ([], Some ZeroDivisionError)
            else if n_folds \<le> 0 then ([], None)
            else if n_folds = 1 then ([], Some ValueError)
            else (fst (fst (k_fold_split E self y n_folds stratify)), None)) \<and>
         (snd (fst (make_k_folds E self y n_folds stratify)) \<noteq> None \<longrightarrow>
            fst (fst (make_k_folds E self y n_folds stratify)) = []) \<and>
         (snd (fst (k_fold_split E self y n_folds stratify)) \<noteq> None \<longrightarrow>
            fst (fst (k_fold_split E self y n_folds stratify)) = [])"
proof -
  have a: "\<forall>e. fst (split E self y train_ratio stratify) = Inl e \<longrightarrow>
            e = OverflowError \<or> e = ValueError"
    using split_Inl [of E self y train_ratio stratify] by blast
  have b: "\<forall>train test. fst (split E self y train_ratio stratify) = Inr (train, test) \<longrightarrow>
            length train + length test = length y \<and>
            set train \<inter> set test = {} \<and>
            set train \<union> set test = {0..<length y}"
  proof (intro allI impI)
    fix train test
    assume "fst (split E self y train_ratio stratify) = Inr (train, test)"
    from split_Inr_all_indices [OF assms this]
    have "mset train + mset test = mset [0..<length y]" .
    from partition_of_mset [OF this]
    show "length train + length test = length y \<and>
            set train \<inter> set test = {} \<and>
            set train \<union> set test = {0..<length y}" by blast
  qed
  have c: "\<forall>e. \<not> stratify \<and> ratio_size train_ratio (length y) = Inl e \<longrightarrow>
            fst (split E self y train_ratio stratify) = Inl e"
    using split_plain_Inl [of train_ratio y _ E self] by auto
  have d: "\<forall>m e. train_ratio = Finite m e \<and> \<bar>real_of_int m * 2 powi e\<bar> \<le> 2 ^ 900 \<longrightarrow>
            (\<exists>train test. fst (split E self y train_ratio stratify) = Inr (train, test))"
  proof (intro allI impI)
    fix m e
    assume h: "train_ratio = Finite m e \<and> \<bar>real_of_int m * 2 powi e\<bar> \<le> 2 ^ 900"
    then have "\<forall>n. \<exists>k. ratio_size train_ratio n = Inr k"
      using moderate_ratio_size [of m e] by blast
    from split_returns [OF this]
    show "\<exists>train test. fst (split E self y train_ratio stratify) = Inr (train, test)" .
  qed
  have e: "\<forall>m e. train_ratio = Finite m e \<and> y = [] \<longrightarrow>
            fst (split E self y train_ratio stratify) = Inr ([], [])"
    using split_empty [OF assms] by blast
  note 2 = make_k_folds_cases [OF assms, of self y n_folds stratify]
  have 3: "0 < n_folds \<longrightarrow>
            length (fst (fst (make_k_folds E self y n_folds stratify))) = nat n_folds \<and>
            mset (concat (fst (fst (make_k_folds E self y n_folds stratify))))
              = mset [0..<length y]"
  proof
    assume "0 < n_folds"
    then have "1 \<le> n_folds" by simp
    from make_k_folds_cover [OF assms this, of self y stratify]
    show "length (fst (fst (make_k_folds E self y n_folds stratify))) = nat n_folds \<and>
            mset (concat (fst (fst (make_k_folds E self y n_folds stratify))))
              = mset [0..<length y]" by auto
  qed
  note 4 = k_fold_split_cases [OF assms, of self y n_folds stratify]
  have 5: "snd (fst (make_k_folds E self y n_folds stratify)) \<noteq> None \<longrightarrow>
            fst (fst (make_k_folds E self y n_folds stratify)) = []"
    by (subst (1 2) 2) (simp split: if_splits)
  have 6: "snd (fst (k_fold_split E self y n_folds stratify)) \<noteq> None \<longrightarrow>
            fst (fst (k_fold_split E self y n_folds stratify)) = []"
    by (subst (1 2) 4) (simp split: if_splits)
  show ?thesis
    apply (intro conjI)
    apply (rule a, rule b, rule c, rule d, rule e)
    apply (rule 2, rule 3, rule 4, rule 5, rule 6)
    done
qed

theorem no_argument_validation_witness:
  "items_permuted test_runtime \<and>
   fst (k_fold_split test_runtime (init False None 0) [0, 0 :: nat] 1 False)
     = ([], Some ValueError) \<and>
   fst (make_k_folds test_runtime (init False None 0) [0, 0 :: nat] 0 False)
     = ([], Some ZeroDivisionError) \<and>
   ratio_size (Finite 1 1023) (length (replicate 100 (0 :: nat))) = Inl OverflowError \<and>
   fst (split test_runtime (init False None 0) (replicate 100 (0 :: nat)) (Finite 1 1023) False)
     = Inl OverflowError \<and>
   \<bar>real_of_int 3 * 2 powi (- 1)\<bar> \<le> 2 ^ 900 \<and>
   (\<exists>train test.
      fst (split test_runtime (init True (Some 42) 0) [0, 1, 0, 1 :: nat] (Finite 3 (- 1)) True)
        = Inr (train, test) \<and>
      length train + length test = length [0, 1, 0, 1 :: nat] \<and>
      set train \<inter> set test = {} \<and>
      set train \<union> set test = {0..<length [0, 1, 0, 1 :: nat]}) \<and>
   fst (split test_runtime (init True (Some 42) 0) ([] :: nat list) (Finite 1 1023) True)
     = Inr ([], [])"
proof -
  have 1: "fst (k_fold_split test_runtime (init False None 0) [0, 0 :: nat] 1 False)
     = ([], Some ValueError)"
    using no_argument_validation [OF test_runtime_items,
        of "init False None 0" "[0, 0 :: nat]" d_half False 1]
    by simp
  have 2: "fst (make_k_folds test_runtime (init False None 0) [0, 0 :: nat] 0 False)
     = ([], Some ZeroDivisionError)"
    using no_argument_validation [OF test_runtime_items,
        of "init False None 0" "[0, 0 :: nat]" d_half False 0]
    by simp
  have 3: "ratio_size (Finite 1 1023) (length (replicate 100 (0 :: nat))) = Inl OverflowError"
    unfolding length_replicate_100 by (rule ratio_size_overflow)
  have 4: "fst (split test_runtime (init False None 0) (replicate 100 (0 :: nat))
                  (Finite 1 1023) False) = Inl OverflowError"
    using no_argument_validation [OF test_runtime_items,
        of "init False None 0" "replicate 100 (0 :: nat)" "Finite 1 1023" False 1] 3
    by blast
  have "(3 :: real) / 2 \<le> 2 ^ 900"
  proof -
    have "(3 :: real) / 2 \<le> 2 ^ 1" by simp
    also have "\<dots> \<le> (2 :: real) ^ 900" by (rule power_increasing) simp_all
    finally show ?thesis .
  qed
  then have 5: "\<bar>real_of_int 3 * 2 powi (- 1)\<bar> \<le> 2 ^ 900"
    by (simp add: power_int_minus)
  have 6: "\<exists>train test.
      fst (split test_runtime (init True (Some 42) 0) [0, 1, 0, 1 :: nat] (Finite 3 (- 1)) True)
        = Inr (train, test) \<and>
      length train + length test = length [0, 1, 0, 1 :: nat] \<and>
      set train \<inter> set test = {} \<and>
      set train \<union> set test = {0..<length [0, 1, 0, 1 :: nat]}"
  proof -
    note t = no_argument_validation [OF test_runtime_items,
        of "init True (Some 42) 0" "[0, 1, 0, 1 :: nat]" "Finite 3 (- 1)" True 1]
    note b = t [THEN conjunct2, THEN conjunct1, rule_format]
    note d = t [THEN conjunct2, THEN conjunct2, THEN conjunct2, THEN conjunct1, rule_format,
        of 3 "- 1"]
    obtain train test where
      r: "fst (split test_runtime (init True (Some 42) 0) [0, 1, 0, 1 :: nat]
                 (Finite 3 (- 1)) True) = Inr (train, test)"
      using d 5 by blast
    from b [OF r] r show ?thesis by blast
  qed
  have 7: "fst (split test_runtime (init True (Some 42) 0) ([] :: nat list)
                  (Finite 1 1023) True) = Inr ([], [])"
    using no_argument_validation [OF test_runtime_items,
        of "init True (Some 42) 0" "[] :: nat list" "Finite 1 1023" True 1]
    by blast
  show ?thesis
    apply (intro conjI)
    apply (rule test_runtime_items, rule 1, rule 2, rule 3, rule 4, rule 5, rule 6, rule 7)
    done
qed

text \<open>
  Claim C2 as stated fails: \<open>split\<close> returns on empty labels and on
  \<open>train_ratio = 1.5\<close>; \<open>make_k_folds\<close> yields a fold for \<open>n_folds = 1\<close>; and for
  \<open>n_folds = -1\<close> \<open>make_k_folds\<close> and \<open>k_fold_split\<close> yield nothing, which is neither
  a partition nor a failure.
\<close>

theorem validation_counterexample:
  "fst (split test_runtime (init False None 0) ([] :: nat list) d_half False) = Inr ([], []) \<and>
   \<not> float_less d_1_5 (Finite 1 0) \<and>
   fst (split test_runtime (init False None 0) [0, 0 :: nat] d_1_5 False) = Inr ([0, 1], []) \<and>
   fst (make_k_folds test_runtime (init False None 0) [0, 0 :: nat] 1 False) = ([[0, 1]], None) \<and>
   fst (make_k_folds test_runtime (init False None 0) [0, 0 :: nat] (- 1) False) = ([], None) \<and>
   fst (k_fold_split test_runtime (init False None 0) [0, 0 :: nat] (- 1) False) = ([], None)"
proof -
  have off: "\<not> shuffle (init False None (0 :: nat))" by (simp add: init_def)
  have 1: "fst (split test_runtime (init False None 0) ([] :: nat list) d_half False)
             = Inr ([], [])"
    unfolding d_half_def by (rule split_empty [OF test_runtime_items])
  have 0: "\<not> float_less d_1_5 (Finite 1 0)" by (simp add: d_1_5_def)
  have l: "length [0, 0 :: nat] = 2" by simp
  have "fst (split test_runtime (init False None 0) [0, 0 :: nat] d_1_5 False)
      = (case ratio_size d_1_5 (length [0, 0 :: nat]) of
           Inl e \<Rightarrow> Inl e
         | Inr k \<Rightarrow> Inr (slice_to [0..<length [0, 0 :: nat]] k,
                         slice_from [0..<length [0, 0 :: nat]] k))"
    by (simp only: split_unshuffled [OF off] if_False)
  also have "\<dots> = Inr ([0, 1], [])"
    unfolding l ratio_size_1_5
    by (simp add: slice_to_def slice_from_def slice_bound_def upt_2)
  finally have 2: "fst (split test_runtime (init False None 0) [0, 0 :: nat] d_1_5 False)
      = Inr ([0, 1], [])" .
  have 3: "fst (make_k_folds test_runtime (init False None 0) [0, 0 :: nat] 1 False)
      = ([[0, 1]], None)"
    using make_k_folds_plain [of 1 test_runtime "init False None 0" "[0, 0 :: nat]"] off
    by (simp add: permuted_range_def kth_slice_def upt_2)
  have 4: "fst (make_k_folds test_runtime (init False None 0) [0, 0 :: nat] (- 1) False)
      = ([], None)"
    by (simp add: make_k_folds_degenerate)
  have 5: "fst (k_fold_split test_runtime (init False None 0) [0, 0 :: nat] (- 1) False)
      = ([], None)"
    using k_fold_split_cases [OF test_runtime_items, of "init False None 0" "[0, 0 :: nat]" "- 1" False]
    by simp
  show ?thesis
    apply (intro conjI)
    apply (rule 1, rule 0, rule 2, rule 3, rule 4, rule 5)
    done
qed

text \<open>
  Claim C9, as amended.  The loader, given a parsed JSON mapping, requires a
  \<open>"model"\<close> key holding a dotted path.  For a mapping that lacks the key it raises
  an error and instantiates no class.  For a mapping that has a \<open>unicode\<close> value with
  a non-ASCII character it raises \<open>UnicodeEncodeError\<close> and instantiates no class,
  whether the key is there or not.  For a mapping whose \<open>unicode\<close> values are all
  ASCII and whose \<open>"model"\<close> value is a string \<open>module.Name\<close> such that the module
  imports and has a true attribute \<open>Name\<close>: when the constructor of that class, the
  \<open>_deserialize\<close> of the instance and its \<open>set_params\<close> do not raise, the loader
  instantiates the class, hands the mapping (its \<open>unicode\<close> values as byte strings)
  to \<open>_deserialize\<close> and the mapping that returns to \<open>set_params\<close>, and returns the
  instance; when one of the three raises, the loader raises that error.
\<close>

theorem load_model_contract:
  "(map_of params0 model_key = None \<longrightarrow> (\<exists>e. load_model L params0 = (Inl e, []))) \<and>
   (\<not> all_ascii params0 \<longrightarrow> load_model L params0 = (Inl UnicodeEncodeError, [])) \<and>
   (all_ascii params0 \<and>
    map_of params0 model_key = Some v \<and>
    rsplit_path (str_value v) = Inr (module_path, model_name) \<and>
    import_module L module_path = Inr md \<and>
    getattr_opt L md model_name = Some model_class \<and>
    truthy L model_class \<and>
    call L model_class = Inr m0 \<and>
    deserialize L m0 (str_values params0) = Inr (m1, params1) \<and>
    set_params L m1 params1 = Inr m2 \<longrightarrow>
      load_model L params0 = (Inr m2, [model_class])) \<and>
   (all_ascii params0 \<and>
    map_of params0 model_key = Some v \<and>
    rsplit_path (str_value v) = Inr (module_path, model_name) \<and>
    import_module L module_path = Inr md \<and>
    getattr_opt L md model_name = Some model_class \<and>
    truthy L model_class \<and>
    (call L model_class = Inl e \<or>
     call L model_class = Inr m0 \<and> deserialize L m0 (str_values params0) = Inl e \<or>
     call L model_class = Inr m0 \<and>
     deserialize L m0 (str_values params0) = Inr (m1, params1) \<and>
     set_params L m1 params1 = Inl e) \<longrightarrow>
      fst (load_model L params0) = Inl e)"
proof (intro conjI impI)
  assume lacking: "map_of params0 model_key = None"
  show "\<exists>e. load_model L params0 = (Inl e, [])"
  proof (cases "all_ascii params0")
    case False
    then show ?thesis by (simp add: load_model_def map_to_str_eq)
  next
    case True
    then show ?thesis using lacking
      by (simp add: load_model_def map_to_str_eq str_values_map_of)
  qed
next
  assume "\<not> all_ascii params0"
  then show "load_model L params0 = (Inl UnicodeEncodeError, [])"
    by (simp add: load_model_def map_to_str_eq)
next
  assume "all_ascii params0 \<and>
    map_of params0 model_key = Some v \<and>
    rsplit_path (str_value v) = Inr (module_path, model_name) \<and>
    import_module L module_path = Inr md \<and>
    getattr_opt L md model_name = Some model_class \<and>
    truthy L model_class \<and>
    call L model_class = Inr m0 \<and>
    deserialize L m0 (str_values params0) = Inr (m1, params1) \<and>
    set_params L m1 params1 = Inr m2"
  then show "load_model L params0 = (Inr m2, [model_class])"
    by (simp add: load_model_def map_to_str_eq str_values_map_of)
next
  assume "all_ascii params0 \<and>
    map_of params0 model_key = Some v \<and>
    rsplit_path (str_value v) = Inr (module_path, model_name) \<and>
    import_module L module_path = Inr md \<and>
    getattr_opt L md model_name = Some model_class \<and>
    truthy L model_class \<and>
    (call L model_class = Inl e \<or>
     call L model_class = Inr m0 \<and> deserialize L m0 (str_values params0) = Inl e \<or>
     call L model_class = Inr m0 \<and>
     deserialize L m0 (str_values params0) = Inr (m1, params1) \<and>
     set_params L m1 params1 = Inl e)"
  then show "fst (load_model L params0) = Inl e"
    by (auto simp: load_model_def map_to_str_eq str_values_map_of)
qed

theorem load_model_contract_witness:
  "load_model test_loader
     [(unicode_of ''L1'', PyFloat 0), (model_key, PyUnicode (unicode_of ''stubs.Echo''))]
     = (Inr (1, [(unicode_of ''L1'', PyFloat 0), (model_key, PyStr ''stubs.Echo'')]), [1]) \<and>
   map_of [(unicode_of ''L1'', PyFloat 0)] model_key = None \<and>
   (\<exists>e. load_model test_loader [(unicode_of ''L1'', PyFloat 0)] = (Inl e, [])) \<and>
   \<not> all_ascii [(unicode_of ''L1'', PyUnicode [8364])] \<and>
   load_model test_loader [(unicode_of ''L1'', PyUnicode [8364])]
     = (Inl UnicodeEncodeError, []) \<and>
   fst (load_model test_loader
     [(unicode_of ''L1'', PyFloat 0), (model_key, PyUnicode (unicode_of ''stubs.Strict''))])
     = Inl KeyError"
proof -
  let ?raw = "[(unicode_of ''L1'', PyFloat 0),
      (model_key, PyUnicode (unicode_of ''stubs.Echo''))]"
  let ?cooked = "[(unicode_of ''L1'', PyFloat 0), (model_key, PyStr ''stubs.Echo'')]"
  let ?strict = "[(unicode_of ''L1'', PyFloat 0),
      (model_key, PyUnicode (unicode_of ''stubs.Strict''))]"
  have ascii_raw: "all_ascii ?raw"
    by (simp add: all_ascii_def ascii_value_def unicode_of_def)
  have ascii_strict: "all_ascii ?strict"
    by (simp add: all_ascii_def ascii_value_def unicode_of_def)
  have cooked: "str_values ?raw = ?cooked"
    by (simp add: str_values_def str_value_unicode_of) (simp add: str_value_def)
  have hyps: "all_ascii ?raw \<and>
    map_of ?raw model_key = Some (PyUnicode (unicode_of ''stubs.Echo'')) \<and>
    rsplit_path (str_value (PyUnicode (unicode_of ''stubs.Echo''))) = Inr (''stubs'', ''Echo'') \<and>
    import_module test_loader ''stubs'' = Inr 0 \<and>
    getattr_opt test_loader 0 ''Echo'' = Some 1 \<and>
    truthy test_loader 1 \<and>
    call test_loader 1 = Inr (1, []) \<and>
    deserialize test_loader (1, []) (str_values ?raw) = Inr ((1, []), ?cooked) \<and>
    set_params test_loader (1, []) ?cooked = Inr (1, ?cooked)"
    unfolding cooked
    by (simp add: str_value_unicode_of rsplit_dot_def test_loader_def test_keys ascii_raw)
  have lacking: "map_of [(unicode_of ''L1'', PyFloat 0)] model_key = None"
    by (simp add: test_keys)
  have bad: "\<not> all_ascii [(unicode_of ''L1'', PyUnicode [8364])]"
    by (simp add: all_ascii_def ascii_value_def)
  have hyps': "all_ascii ?strict \<and>
    map_of ?strict model_key = Some (PyUnicode (unicode_of ''stubs.Strict'')) \<and>
    rsplit_path (str_value (PyUnicode (unicode_of ''stubs.Strict'')))
      = Inr (''stubs'', ''Strict'') \<and>
    import_module test_loader ''stubs'' = Inr 0 \<and>
    getattr_opt test_loader 0 ''Strict'' = Some 2 \<and>
    truthy test_loader 2 \<and>
    call test_loader 2 = Inr (2, []) \<and>
    deserialize test_loader (2, []) (str_values ?strict) = Inl KeyError"
    by (simp add: str_value_unicode_of rsplit_dot_def test_loader_def test_keys ascii_strict
        str_values_map_of)
  have 1: "load_model test_loader ?raw = (Inr (1, ?cooked), [1])"
    using load_model_contract
      [where L = test_loader and ?params0.0 = ?raw
         and v = "PyUnicode (unicode_of ''stubs.Echo'')"
         and module_path = "''stubs''" and model_name = "''Echo''"
         and md = 0 and model_class = 1 and ?m0.0 = "(1, [])" and ?m1.0 = "(1, [])"
         and ?params1.0 = ?cooked and ?m2.0 = "(1, ?cooked)"]
      hyps by blast
  have 2: "\<exists>e. load_model test_loader [(unicode_of ''L1'', PyFloat 0)] = (Inl e, [])"
    using load_model_contract
      [where L = test_loader and ?params0.0 = "[(unicode_of ''L1'', PyFloat 0)]"]
      lacking by blast
  have 3: "load_model test_loader [(unicode_of ''L1'', PyUnicode [8364])]
     = (Inl UnicodeEncodeError, [])"
    using load_model_contract
      [where L = test_loader and ?params0.0 = "[(unicode_of ''L1'', PyUnicode [8364])]"]
      bad by blast
  have 4: "fst (load_model test_loader ?strict) = Inl KeyError"
    using load_model_contract
      [where L = test_loader and ?params0.0 = ?strict
         and v = "PyUnicode (unicode_of ''stubs.Strict'')"
         and module_path = "''stubs''" and model_name = "''Strict''"
         and md = 0 and model_class = 2 and ?m0.0 = "(2, [])" and e = KeyError]
      hyps' by blast
  show ?thesis
    apply (intro conjI)
    apply (rule 1, rule lacking, rule 2, rule bad, rule 3, rule 4)
    done
qed

text \<open>
  Claim C9 as stated fails on mappings that have the \<open>"model"\<close> key and name a class
  that exists.  With a field whose string has a non-ASCII character the loader raises
  \<open>UnicodeEncodeError\<close> and instantiates no class.  With a class whose \<open>_deserialize\<close>
  raises on the fields given, the loader raises that error and returns no model.
\<close>

theorem load_model_counterexample:
  "map_of [(model_key, PyUnicode (unicode_of ''stubs.Echo'')),
           (unicode_of ''L1'', PyUnicode [233])] model_key
     = Some (PyUnicode (unicode_of ''stubs.Echo'')) \<and>
   getattr_opt test_loader 0 ''Echo'' = Some 1 \<and>
   load_model test_loader [(model_key, PyUnicode (unicode_of ''stubs.Echo'')),
                           (unicode_of ''L1'', PyUnicode [233])]
     = (Inl UnicodeEncodeError, []) \<and>
   getattr_opt test_loader 0 ''Strict'' = Some 2 \<and>
   load_model test_loader [(model_key, PyUnicode (unicode_of ''stubs.Strict''))]
     = (Inl KeyError, [2])"
proof -
  have a: "\<not> all_ascii [(model_key, PyUnicode (unicode_of ''stubs.Echo'')),
                           (unicode_of ''L1'', PyUnicode [233])]"
    by (simp add: all_ascii_def ascii_value_def)
  have b: "all_ascii [(model_key, PyUnicode (unicode_of ''stubs.Strict''))]"
    by (simp add: all_ascii_def ascii_value_def unicode_of_def)
  have 1: "load_model test_loader [(model_key, PyUnicode (unicode_of ''stubs.Echo'')),
                           (unicode_of ''L1'', PyUnicode [233])]
     = (Inl UnicodeEncodeError, [])"
    using a by (simp add: load_model_def map_to_str_eq)
  have 2: "load_model test_loader [(model_key, PyUnicode (unicode_of ''stubs.Strict''))]
     = (Inl KeyError, [2])"
    using b
    by (simp add: load_model_def map_to_str_eq str_values_def str_value_unicode_of
        rsplit_dot_def test_loader_def test_keys)
  show ?thesis using 1 2 by (simp add: test_loader_def)
qed

end
